theory Spec2Isabelle
  imports Main
begin

section \<open>Characters and Python string helpers\<close>

text \<open>
  A Python \<open>str\<close> is modelled as a \<open>string\<close>: each \<open>char\<close> stands for one code point
  below 256 (the Latin-1 range).  The control characters tested by the program are named.
\<close>

definition BEL :: char where "BEL = CHR 0x07"
definition BS :: char where "BS = CHR 0x08"
definition LF :: char where "LF = CHR 0x0A"
definition CR :: char where "CR = CHR 0x0D"
definition ESC :: char where "ESC = CHR 0x1B"
definition DEL :: char where "DEL = CHR 0x7F"

lemmas ctrl_defs = BEL_def BS_def LF_def CR_def ESC_def DEL_def

text \<open>\<open>str.isalpha()\<close> on one code point below 256: the letters of Latin-1.\<close>

definition isalpha :: "char \<Rightarrow> bool" where
  "isalpha c =
     (let n = (of_char c :: nat)
      in (65 \<le> n \<and> n \<le> 90) \<or> (97 \<le> n \<and> n \<le> 122) \<or> n = 170 \<or> n = 181 \<or> n = 186
         \<or> (192 \<le> n \<and> n \<le> 214) \<or> (216 \<le> n \<and> n \<le> 246) \<or> (248 \<le> n \<and> n \<le> 255))"

text \<open>\<open>str.isspace()\<close> on one code point below 256: what \<open>strip()\<close> removes.\<close>

definition isspace :: "char \<Rightarrow> bool" where
  "isspace c =
     (let n = (of_char c :: nat)
      in (9 \<le> n \<and> n \<le> 13) \<or> (28 \<le> n \<and> n \<le> 32) \<or> n = 133 \<or> n = 160)"

definition isdigit :: "char \<Rightarrow> bool" where
  "isdigit c = (let n = (of_char c :: nat) in 48 \<le> n \<and> n \<le> 57)"

text \<open>
  The whitespace that \<open>int()\<close> skips around the number: the six ASCII blanks and the
  two blanks above 127; the separators 0x1C to 0x1F are not among them.
\<close>

definition int_space :: "char \<Rightarrow> bool" where
  "int_space c =
     (let n = (of_char c :: nat) in (9 \<le> n \<and> n \<le> 13) \<or> n = 32 \<or> n = 133 \<or> n = 160)"

definition strip :: "string \<Rightarrow> string" where
  "strip s = rev (dropWhile isspace (rev (dropWhile isspace s)))"

text \<open>\<open>s.split(sep)\<close> for a one-character separator: always at least one part.\<close>

fun split :: "char \<Rightarrow> string \<Rightarrow> string list" where
  "split sep [] = [[]]"
| "split sep (c # cs) =
     (if c = sep then [] # split sep cs
      else (case split sep cs of [] \<Rightarrow> [[c]] | part # parts \<Rightarrow> (c # part) # parts))"

text \<open>The exceptions that the modelled code can meet.\<close>

datatype py_error = ValueError | OverflowError

text \<open>
  The digits of a decimal \<open>int()\<close> argument: digits, with single underscores allowed
  between two digits.  \<open>prev\<close> tells whether the previous character was a digit.
\<close>

fun int_digits :: "string \<Rightarrow> bool \<Rightarrow> int \<Rightarrow> int option" where
  "int_digits [] prev acc = (if prev then Some acc else None)"
| "int_digits (c # cs) prev acc =
     (if isdigit c then int_digits cs True (acc * 10 + (int (of_char c) - 48))
      else if c = CHR ''_'' \<and> prev then
        (case cs of [] \<Rightarrow> None | d # _ \<Rightarrow> if isdigit d then int_digits cs False acc else None)
      else None)"

text \<open>
  \<open>int(s)\<close> in base 10: surrounding whitespace, an optional sign, then the digits.  More
  than 4300 digits are refused with \<open>ValueError\<close> (the interpreter's limit on the
  conversion of integer strings).
\<close>

definition py_int :: "string \<Rightarrow> py_error + int" where
  "py_int s =
     (let t = rev (dropWhile int_space (rev (dropWhile int_space s)));
          neg = (t \<noteq> [] \<and> hd t = CHR ''-'');
          body = (if t \<noteq> [] \<and> (hd t = CHR ''-'' \<or> hd t = CHR ''+'') then tl t else t)
      in if 4300 < length (filter isdigit body) then Inl ValueError
         else case int_digits body False 0 of
                None \<Rightarrow> Inl ValueError
              | Some v \<Rightarrow> Inr (if neg then - v else v))"

section \<open>The text document and its cursor\<close>

text \<open>
  The widget's \<open>QTextDocument\<close> is a sequence of characters in which blocks (lines) are
  separated by a paragraph separator; a \<open>QTextCursor\<close> without selection is a position
  between \<open>0\<close> and the length of that sequence.  The state of the interpreter is the
  document together with the cursor \<open>self._cursor\<close>.
\<close>

datatype cell = Ch char | ParSep

record screen =
  doc :: "cell list"
  pos :: nat

definition wf_screen :: "screen \<Rightarrow> bool" where
  "wf_screen s = (pos s \<le> length (doc s))"

text \<open>The empty document of a new widget, and of \<open>self.clear()\<close>.\<close>

definition empty_screen :: screen where
  "empty_screen = \<lparr>doc = [], pos = 0\<rparr>"

text \<open>\<open>document.blockCount()\<close>: a C \<open>int\<close>, so never more than 2147483647.\<close>

definition blockCount :: "cell list \<Rightarrow> int" where
  "blockCount d = min 2147483647 (int (Suc (length (filter (\<lambda>c. c = ParSep) d))))"

text \<open>The lines of a document, and the cursor as (line, column).\<close>

fun doc_lines :: "cell list \<Rightarrow> string list" where
  "doc_lines [] = [[]]"
| "doc_lines (ParSep # cs) = [] # doc_lines cs"
| "doc_lines (Ch c # cs) = (c # hd (doc_lines cs)) # tl (doc_lines cs)"

definition block_start :: "cell list \<Rightarrow> nat \<Rightarrow> nat" where
  "block_start d p = p - length (takeWhile (\<lambda>c. c \<noteq> ParSep) (rev (take p d)))"

definition block_end :: "cell list \<Rightarrow> nat \<Rightarrow> nat" where
  "block_end d p = p + length (takeWhile (\<lambda>c. c \<noteq> ParSep) (drop p d))"

definition cursor_line :: "screen \<Rightarrow> nat" where
  "cursor_line s = length (filter (\<lambda>c. c = ParSep) (take (pos s) (doc s)))"

definition cursor_col :: "screen \<Rightarrow> nat" where
  "cursor_col s = pos s - block_start (doc s) (pos s)"

text \<open>\<open>movePosition(StartOfBlock)\<close> and \<open>movePosition(EndOfBlock)\<close> on a copy of the cursor.\<close>

definition cursor_to_line_start :: "screen \<Rightarrow> screen" where
  "cursor_to_line_start s = s\<lparr>pos := block_start (doc s) (pos s)\<rparr>"

definition cursor_to_line_end :: "screen \<Rightarrow> screen" where
  "cursor_to_line_end s = s\<lparr>pos := block_end (doc s) (pos s)\<rparr>"

text \<open>\<open>cursor.insertBlock()\<close> and \<open>cursor.insertText(char)\<close>: insert at the cursor, which moves behind.\<close>

definition insertBlock :: "screen \<Rightarrow> screen" where
  "insertBlock s = \<lparr>doc = take (pos s) (doc s) @ ParSep # drop (pos s) (doc s), pos = Suc (pos s)\<rparr>"

definition insertText :: "char \<Rightarrow> screen \<Rightarrow> screen" where
  "insertText c s = \<lparr>doc = take (pos s) (doc s) @ Ch c # drop (pos s) (doc s), pos = Suc (pos s)\<rparr>"

text \<open>\<open>cursor.deletePreviousChar()\<close>: nothing at position 0.\<close>

definition deletePreviousChar :: "screen \<Rightarrow> screen" where
  "deletePreviousChar s =
     (if pos s < 1 then s
      else \<lparr>doc = take (pos s - 1) (doc s) @ drop (pos s) (doc s), pos = pos s - 1\<rparr>)"

text \<open>
  A selection between two positions, removed by \<open>removeSelectedText()\<close>: the cursor ends
  at the lower end.
\<close>

definition remove_range :: "nat \<Rightarrow> nat \<Rightarrow> screen \<Rightarrow> screen" where
  "remove_range a b s =
     \<lparr>doc = take (min a b) (doc s) @ drop (max a b) (doc s), pos = min a b\<rparr>"

section \<open>The escape-sequence interpreter\<close>

text \<open>\<open>ESC [ params K\<close>: erase in line.\<close>

definition erase_line :: "string \<Rightarrow> screen \<Rightarrow> screen" where
  "erase_line params cur =
     (let mode = (if params \<noteq> [] then params else ''0'')
      in if mode = ''0'' then remove_range (pos cur) (block_end (doc cur) (pos cur)) cur
         else if mode = ''1'' then remove_range (pos cur) (block_start (doc cur) (pos cur)) cur
         else if mode = ''2'' then
           remove_range (block_start (doc cur) (pos cur))
             (block_end (doc cur) (block_start (doc cur) (pos cur))) cur
         else cur)"

text \<open>\<open>ESC [ params J\<close>: erase in display.\<close>

definition erase_display :: "string \<Rightarrow> screen \<Rightarrow> screen" where
  "erase_display params cur =
     (let mode = (if params \<noteq> [] then params else ''0'')
      in if mode = ''0'' \<or> mode = [] then remove_range (pos cur) (length (doc cur)) cur
         else if mode = ''1'' then remove_range (pos cur) 0 cur
         else if mode = ''2'' \<or> mode = ''3'' then empty_screen
         else cur)"

text \<open>
  The row and column of \<open>ESC [ params H\<close>.  The two \<open>int()\<close> calls stand in a \<open>try\<close>
  whose \<open>except ValueError\<close> resets both numbers; any other exception would pass.
\<close>

definition cursor_target :: "string \<Rightarrow> py_error + int \<times> int" where
  "cursor_target params =
     (if params \<noteq> [] then
        (let parts = split CHR '';'' params
         in if length parts = 2 then
              (case py_int (parts ! 0) of
                 Inl ValueError \<Rightarrow> Inr (1, 1)
               | Inl e \<Rightarrow> Inl e
               | Inr r \<Rightarrow>
                  (case py_int (parts ! 1) of
                     Inl ValueError \<Rightarrow> Inr (1, 1)
                   | Inl e \<Rightarrow> Inl e
                   | Inr c \<Rightarrow> Inr (max r 1, max c 1)))
            else Inr (1, 1))
      else Inr (1, 1))"

text \<open>
  \<open>while document.blockCount() < row\<close>: append a block at the end of the document.  The
  loop does not end when \<open>row\<close> is above what \<open>blockCount()\<close> can reach: not returning
  is the value \<open>None\<close>.
\<close>

partial_function (option) extend_blocks :: "cell list \<Rightarrow> int \<Rightarrow> cell list option" where
  "extend_blocks d row =
     (if blockCount d < row then extend_blocks (d @ [ParSep]) row else Some d)"

declare extend_blocks.simps [code]

text \<open>
  The position at which block number \<open>k\<close> starts (\<open>document.findBlockByNumber(k)\<close>).
  The interpreter asks only for a block that exists; for one that does not, the
  result here is 0.
\<close>

fun block_position :: "cell list \<Rightarrow> nat \<Rightarrow> nat" where
  "block_position d 0 = 0"
| "block_position [] (Suc k) = 0"
| "block_position (c # cs) (Suc k) =
     Suc (if c = ParSep then block_position cs k else block_position cs (Suc k))"

text \<open>
  A Python \<open>int\<close> passed to a Qt method that takes a C \<open>int\<close>: the binding converts
  it and raises \<open>OverflowError\<close> when the value does not fit 32 bits.
\<close>

definition c_int :: "int \<Rightarrow> py_error + int" where
  "c_int n = (if - 2147483648 \<le> n \<and> n \<le> 2147483647 then Inr n else Inl OverflowError)"

text \<open>
  \<open>ESC [ params H\<close> and \<open>ESC [ params f\<close>.  The document is extended to \<open>row\<close> blocks;
  \<open>findBlockByNumber(row - 1)\<close> and \<open>movePosition(Right, MoveAnchor, col - 1)\<close> take C
  integers; the move to the right goes character by character through the document and
  stops at its end.  The result is \<open>None\<close> when the loop does not end, an exception when
  one is raised, and the new cursor otherwise.
\<close>

definition cursor_position :: "string \<Rightarrow> screen \<Rightarrow> (py_error + screen) option" where
  "cursor_position params cur =
     (case cursor_target params of
        Inl e \<Rightarrow> Some (Inl e)
      | Inr (row, col) \<Rightarrow>
         (case extend_blocks (doc cur) row of
            None \<Rightarrow> None
          | Some d \<Rightarrow>
             (case c_int (row - 1) of
                Inl e \<Rightarrow> Some (Inl e)
              | Inr k \<Rightarrow>
                 (case c_int (col - 1) of
                    Inl e \<Rightarrow> Some (Inl e)
                  | Inr n \<Rightarrow>
                     Some (Inr \<lparr>doc = d,
                                pos = min (block_position d (nat k) + nat n) (length d)\<rparr>)))))"

definition csi_dispatch :: "char \<Rightarrow> string \<Rightarrow> screen \<Rightarrow> (py_error + screen) option" where
  "csi_dispatch command params cur =
     (if command = CHR ''K'' then Some (Inr (erase_line params cur))
      else if command = CHR ''J'' then Some (Inr (erase_display params cur))
      else if command = CHR ''H'' \<or> command = CHR ''f'' then cursor_position params cur
      else Some (Inr cur))"

text \<open>
  The inner loop of \<open>ESC ]\<close>: the text that remains after the terminator (\<open>BEL\<close>, or
  \<open>ESC\<close> followed by a backslash); nothing remains when there is none.
\<close>

fun skip_osc :: "string \<Rightarrow> string" where
  "skip_osc [] = []"
| "skip_osc (c # cs) =
     (if c = BEL then cs
      else if c = ESC \<and> cs \<noteq> [] \<and> hd cs = CHR 0x5C then tl cs
      else skip_osc cs)"

text \<open>
  A normal character: the character under the cursor, unless it is the block separator,
  is removed; then the character is inserted.
\<close>

definition write_char :: "char \<Rightarrow> screen \<Rightarrow> screen" where
  "write_char c cur =
     insertText c
       (if pos cur < length (doc cur) \<and> doc cur ! pos cur \<noteq> ParSep
        then cur\<lparr>doc := take (pos cur) (doc cur) @ drop (Suc (pos cur)) (doc cur)\<rparr>
        else cur)"

lemma dropWhile_Cons_length: "dropWhile P xs = a # ys \<Longrightarrow> length ys < length xs"
  using length_dropWhile_le [of P xs] by simp

lemma skip_osc_length: "length (skip_osc cs) \<le> length cs"
  by (induction cs) (auto simp: le_SucI)

lemma skip_osc_length_less: "length (skip_osc cs) < Suc (Suc (length cs))"
  using skip_osc_length [of cs] by simp

text \<open>
  The loop of \<open>handle_output\<close>.  The first argument is \<open>text[i:]\<close>, the part of the
  fragment not yet consumed; a \<open>break\<close> returns the cursor as it is; an exception leaves
  the loop and the method; \<open>None\<close> stands for a call that does not return.
\<close>

function handle_loop :: "string \<Rightarrow> screen \<Rightarrow> (py_error + screen) option" where
  "handle_loop [] cur = Some (Inr cur)"
| "handle_loop (char # rest) cur =
     (if char = CR then handle_loop rest (cursor_to_line_start cur)
      else if char = LF then handle_loop rest (insertBlock (cursor_to_line_end cur))
      else if char = BS \<or> char = DEL then
        (if 2 \<le> length rest \<and> rest ! 0 = CHR '' '' \<and> (rest ! 1 = BS \<or> rest ! 1 = DEL)
         then handle_loop (drop 2 rest) (if pos cur > 0 then deletePreviousChar cur else cur)
         else handle_loop rest (if pos cur > 0 then deletePreviousChar cur else cur))
      else if char = BEL then handle_loop rest cur
      else if char = ESC then
        (case rest of
           [] \<Rightarrow> Some (Inr cur)
         | next_char # rest1 \<Rightarrow>
            if next_char = CHR ''['' then
              (case dropWhile (\<lambda>c. \<not> isalpha c) rest1 of
                 [] \<Rightarrow> Some (Inr cur)
               | command # rest2 \<Rightarrow>
                  (case csi_dispatch command (takeWhile (\<lambda>c. \<not> isalpha c) rest1) cur of
                     None \<Rightarrow> None
                   | Some (Inl e) \<Rightarrow> Some (Inl e)
                   | Some (Inr cur') \<Rightarrow> handle_loop rest2 cur'))
            else if next_char = CHR '']'' then handle_loop (skip_osc rest1) cur
            else handle_loop rest1 cur)
      else handle_loop rest (write_char char cur))"
  by pat_completeness auto
termination
  by (relation "measure (\<lambda>(text, cur). length text)")
    (auto simp: skip_osc_length_less dest: dropWhile_Cons_length)

definition handle_output :: "string \<Rightarrow> screen \<Rightarrow> (py_error + screen) option" where
  "handle_output text s = handle_loop text s"

section \<open>The directory-report extractor\<close>

definition OSC_DIR_PREFIX :: string where
  "OSC_DIR_PREFIX = ESC # '']1337;CurrentDir=''"

text \<open>
  \<open>text.find(sub, index)\<close> on \<open>text[index:]\<close>: the offset of the first occurrence of
  \<open>sub\<close>, \<open>None\<close> for the result \<open>-1\<close>.
\<close>

fun find :: "string \<Rightarrow> string \<Rightarrow> nat option" where
  "find sub [] = (if sub = [] then Some 0 else None)"
| "find sub (c # cs) =
     (if take (length sub) (c # cs) = sub then Some 0
      else map_option Suc (find sub cs))"

text \<open>
  \<open>_find_osc_terminator(text, start)\<close> on \<open>text[start:]\<close>: the offset of the first
  terminator and its length, \<open>None\<close> for the result \<open>(-1, 0)\<close>.
\<close>

fun find_osc_terminator :: "string \<Rightarrow> (nat \<times> nat) option" where
  "find_osc_terminator [] = None"
| "find_osc_terminator (c # cs) =
     (if c = BEL then Some (0, 1)
      else if c = ESC \<and> cs \<noteq> [] \<and> hd cs = CHR 0x5C then Some (0, 2)
      else map_option (\<lambda>(i, n). (Suc i, n)) (find_osc_terminator cs))"

lemma find_osc_terminator_bound:
  "find_osc_terminator cs = Some (e, n) \<Longrightarrow> e < length cs \<and> 0 < n"
  by (induction cs arbitrary: e) (auto split: if_splits)

text \<open>
  The loop of \<open>_extract_directories\<close>.  The argument is \<open>text[index:]\<close>; the result is
  the list of directories appended from there on.
\<close>

function extract_loop :: "string \<Rightarrow> string list" where
  "extract_loop text =
     (case find OSC_DIR_PREFIX text of
        None \<Rightarrow> []
      | Some k \<Rightarrow>
         (case find_osc_terminator (drop (k + length OSC_DIR_PREFIX) text) of
            None \<Rightarrow> []
          | Some (e, n) \<Rightarrow>
             take e (drop (k + length OSC_DIR_PREFIX) text)
               # extract_loop (drop (e + n) (drop (k + length OSC_DIR_PREFIX) text))))"
  by pat_completeness auto
termination
  by (relation "measure length") (auto dest!: find_osc_terminator_bound)

declare extract_loop.simps [simp del]

definition extract_directories :: "string \<Rightarrow> string list" where
  "extract_directories text = extract_loop text"

section \<open>Keyboard input and the command recorder\<close>

text \<open>
  \<open>str.encode()\<close>: UTF-8, for code points below 256.  A byte is written as a \<open>char\<close>.
\<close>

definition encode_char :: "char \<Rightarrow> string" where
  "encode_char c =
     (let n = (of_char c :: nat)
      in if n < 128 then [c] else [char_of (192 + n div 64), char_of (128 + n mod 64)])"

definition encode :: "string \<Rightarrow> string" where
  "encode s = concat (map encode_char s)"

text \<open>
  The state seen by the input path: the command buffer \<open>self._input_buffer\<close>, the byte
  strings passed to \<open>os.write\<close> so far, the commands emitted through
  \<open>command_executed\<close>, the clipboard and the text selected in the widget (empty when
  \<open>hasSelection()\<close> is false).
\<close>

record terminal =
  input_buffer :: string
  written :: "string list"
  executed :: "string list"
  clipboard :: string
  selection :: string

definition os_write :: "string \<Rightarrow> terminal \<Rightarrow> terminal" where
  "os_write bytes t = t\<lparr>written := written t @ [bytes]\<rparr>"

definition record_command :: "string \<Rightarrow> terminal \<Rightarrow> terminal" where
  "record_command command t =
     (if strip command \<noteq> [] then t\<lparr>executed := executed t @ [strip command]\<rparr> else t)"

definition endswith :: "string \<Rightarrow> string \<Rightarrow> bool" where
  "endswith s suffix = (length suffix \<le> length s \<and> drop (length s - length suffix) s = suffix)"

definition send_command :: "string \<Rightarrow> bool \<Rightarrow> terminal \<Rightarrow> terminal" where
  "send_command command add_newline t =
     (let text = command @ (if add_newline \<and> \<not> endswith command [LF] then [LF] else [])
      in if add_newline then record_command command (os_write (encode text) t)
         else os_write (encode text) t)"

datatype qt_key =
    Key_Return | Key_Enter | Key_Backspace | Key_Tab | Key_Left | Key_Right | Key_Up
  | Key_Down | Key_Home | Key_End | Key_PageUp | Key_PageDown | Key_Delete | Key_Insert
  | Key_Escape | Key_Other

text \<open>
  What \<open>keyPressEvent\<close> reads from a \<open>QKeyEvent\<close>: whether it matches the standard copy
  or paste key sequence, its key and its text.
\<close>

record key_event =
  matches_Copy :: bool
  matches_Paste :: bool
  key :: qt_key
  key_text :: string

fun special_mappings :: "qt_key \<Rightarrow> string option" where
  "special_mappings Key_Backspace = Some [BS]"
| "special_mappings Key_Tab = Some [CHR 0x09]"
| "special_mappings Key_Left = Some (ESC # ''[D'')"
| "special_mappings Key_Right = Some (ESC # ''[C'')"
| "special_mappings Key_Up = Some (ESC # ''[A'')"
| "special_mappings Key_Down = Some (ESC # ''[B'')"
| "special_mappings Key_Home = Some (ESC # ''[H'')"
| "special_mappings Key_End = Some (ESC # ''[F'')"
| "special_mappings Key_PageUp = Some (ESC # ''[5~'')"
| "special_mappings Key_PageDown = Some (ESC # ''[6~'')"
| "special_mappings Key_Delete = Some (ESC # ''[3~'')"
| "special_mappings Key_Insert = Some (ESC # ''[2~'')"
| "special_mappings Key_Escape = Some [ESC]"
| "special_mappings k = None"

text \<open>
  \<open>keyPressEvent\<close>.  The last branch hands the event to \<open>QTextEdit\<close>, which touches none
  of the fields of the state.
\<close>

definition keyPressEvent :: "key_event \<Rightarrow> terminal \<Rightarrow> terminal" where
  "keyPressEvent event t =
     (if matches_Copy event then
        (if selection t \<noteq> [] then t\<lparr>clipboard := selection t\<rparr>
         else (os_write [CHR 0x03] t)\<lparr>input_buffer := []\<rparr>)
      else if matches_Paste event then
        (if clipboard t \<noteq> []
         then (os_write (encode (clipboard t)) t)\<lparr>input_buffer := input_buffer t @ clipboard t\<rparr>
         else t)
      else if key event = Key_Return \<or> key event = Key_Enter then
        (record_command (input_buffer t) (os_write [CR] t))\<lparr>input_buffer := []\<rparr>
      else if key event = Key_Backspace then
        os_write [BS]
          (if input_buffer t \<noteq> [] then t\<lparr>input_buffer := butlast (input_buffer t)\<rparr> else t)
      else
        (case special_mappings (key event) of
           Some bytes \<Rightarrow> os_write bytes t
         | None \<Rightarrow>
            if key_text event \<noteq> []
            then (os_write (encode (key_text event)) t)
                   \<lparr>input_buffer := input_buffer t @ key_text event\<rparr>
            else t))"

section \<open>The reader and the tab\<close>

text \<open>
  \<open>TerminalReader.run\<close> decodes each read on its own: \<open>bytes.decode(errors="ignore")\<close>,
  UTF-8 with every byte that belongs to no well-formed character dropped.  A byte is
  written as a \<open>char\<close>.
\<close>

definition in_range :: "char \<Rightarrow> nat \<Rightarrow> nat \<Rightarrow> bool" where
  "in_range b lo hi = (lo \<le> of_char b \<and> (of_char b :: nat) \<le> hi)"

text \<open>The bytes begin with the well-formed encoding of a character above \<open>U+00FF\<close>.\<close>

fun above_latin1 :: "string \<Rightarrow> bool" where
  "above_latin1 (b1 # b2 # bs) =
     ((in_range b1 0xC4 0xDF \<and> in_range b2 0x80 0xBF)
      \<or> (case bs of
            [] \<Rightarrow> False
          | b3 # bs' \<Rightarrow>
             in_range b3 0x80 0xBF
             \<and> ((b1 = CHR 0xE0 \<and> in_range b2 0xA0 0xBF)
                  \<or> (in_range b1 0xE1 0xEC \<and> in_range b2 0x80 0xBF)
                  \<or> (b1 = CHR 0xED \<and> in_range b2 0x80 0x9F)
                  \<or> (in_range b1 0xEE 0xEF \<and> in_range b2 0x80 0xBF)
                  \<or> (case bs' of
                        [] \<Rightarrow> False
                      | b4 # bs'' \<Rightarrow>
                         in_range b4 0x80 0xBF
                         \<and> ((b1 = CHR 0xF0 \<and> in_range b2 0x90 0xBF)
                              \<or> (in_range b1 0xF1 0xF3 \<and> in_range b2 0x80 0xBF)
                              \<or> (b1 = CHR 0xF4 \<and> in_range b2 0x80 0x8F))))))"
| "above_latin1 bs = False"

text \<open>
  The decoded text.  A character above \<open>U+00FF\<close> is outside the alphabet of the model:
  the result is \<open>None\<close> for a read that holds one.
\<close>

fun decode :: "string \<Rightarrow> string option" where
  "decode [] = Some []"
| "decode (b # bs) =
     (if (of_char b :: nat) < 128 then map_option (\<lambda>cs. b # cs) (decode bs)
      else if (b = CHR 0xC2 \<or> b = CHR 0xC3) \<and> bs \<noteq> [] \<and> in_range (hd bs) 0x80 0xBF
      then map_option
             (\<lambda>cs. char_of (((of_char b :: nat) - 192) * 64 + (of_char (hd bs) - 128)) # cs)
             (decode (tl bs))
      else if above_latin1 (b # bs) then None
      else decode bs)"

text \<open>
  \<open>TerminalTab.handle_output\<close> renders the fragment and then scans it for directory
  reports.  Its result is what the rendering returned together with the directories that
  the extractor yielded (the method acts on those that exist as directories); when the
  rendering does not return a screen, the scan is not reached.
\<close>

definition tab_handle_output ::
  "string \<Rightarrow> screen \<Rightarrow> (py_error + screen) option \<times> string list" where
  "tab_handle_output text s =
     (case handle_output text s of
        Some (Inr s') \<Rightarrow> (Some (Inr s'), extract_directories text)
      | r \<Rightarrow> (r, []))"

text \<open>
  The reader delivers the fragments one at a time, in order.  The directories yielded
  for the fragments before a failing one have been acted on already: they stay.
\<close>

fun feed :: "string list \<Rightarrow> screen \<Rightarrow> (py_error + screen) option \<times> string list" where
  "feed [] s = (Some (Inr s), [])"
| "feed (text # texts) s =
     (case tab_handle_output text s of
        (Some (Inr s'), ds) \<Rightarrow> (case feed texts s' of (r, ds') \<Rightarrow> (r, ds @ ds'))
      | (r, ds) \<Rightarrow> (r, ds))"

section \<open>Fragment boundaries\<close>

text \<open>
  A fragment ends between two sequences of the interpreter when the loop of
  \<open>handle_output\<close> consumes it to its end without a \<open>break\<close>, without an operating
  system command left open, and without a backspace whose two characters of lookahead
  the next fragment could complete.
\<close>

function between_sequences :: "string \<Rightarrow> bool" where
  "between_sequences [] = True"
| "between_sequences (char # rest) =
     (if char = BS \<or> char = DEL then
        (if 2 \<le> length rest \<and> rest ! 0 = CHR '' '' \<and> (rest ! 1 = BS \<or> rest ! 1 = DEL)
         then between_sequences (drop 2 rest)
         else rest \<noteq> [] \<and> rest \<noteq> '' '' \<and> between_sequences rest)
      else if char = ESC then
        (case rest of
           [] \<Rightarrow> False
         | next_char # rest1 \<Rightarrow>
            if next_char = CHR ''['' then
              (case dropWhile (\<lambda>c. \<not> isalpha c) rest1 of
                 [] \<Rightarrow> False
               | command # rest2 \<Rightarrow> between_sequences rest2)
            else if next_char = CHR '']'' then
              find_osc_terminator rest1 \<noteq> None \<and> between_sequences (skip_osc rest1)
            else between_sequences rest1)
      else between_sequences rest)"
  by pat_completeness auto
termination
  by (relation "measure length")
    (auto simp: skip_osc_length_less dest: dropWhile_Cons_length)

text \<open>Some non-empty end of the text is a beginning of \<open>sub\<close>, but not all of it.\<close>

fun partial_at_end :: "string \<Rightarrow> string \<Rightarrow> bool" where
  "partial_at_end sub [] = False"
| "partial_at_end sub (c # cs) =
     ((length (c # cs) < length sub \<and> take (length (c # cs)) sub = c # cs)
      \<or> partial_at_end sub cs)"

text \<open>
  A fragment ends between two directory reports when the loop of
  \<open>_extract_directories\<close> finds every report it begins closed by its terminator, and the
  text after the last report ends with no beginning of the marker.
\<close>

function between_reports :: "string \<Rightarrow> bool" where
  "between_reports text =
     (case find OSC_DIR_PREFIX text of
        None \<Rightarrow> \<not> partial_at_end OSC_DIR_PREFIX text
      | Some k \<Rightarrow>
         (case find_osc_terminator (drop (k + length OSC_DIR_PREFIX) text) of
            None \<Rightarrow> False
          | Some (e, n) \<Rightarrow>
             between_reports (drop (e + n) (drop (k + length OSC_DIR_PREFIX) text))))"
  by pat_completeness auto
termination
  by (relation "measure length") (auto dest!: find_osc_terminator_bound)

declare between_reports.simps [simp del]

section \<open>Control characters\<close>

text \<open>A control character: a code point of the category Cc.\<close>

definition is_control :: "char \<Rightarrow> bool" where
  "is_control c = (let n = (of_char c :: nat) in n < 32 \<or> (127 \<le> n \<and> n < 160))"

section \<open>A directory report inside a fragment\<close>

text \<open>
  Claim C7.  For the single fragment \<open>"a"\<close>, \<open>ESC\<close>, \<open>"]1337;CurrentDir=/tmp/x"\<close>, \<open>BEL\<close>,
  \<open>"b"\<close> the extractor yields exactly one directory, \<open>/tmp/x\<close>; the interpreter, started
  on the empty buffer, ends with the single line \<open>ab\<close>; and on every buffer the fragment
  is rendered exactly as the two characters \<open>ab\<close> are, so nothing of the payload shows.
\<close>

theorem osc_report_fragment:
  "extract_directories (''a'' @ ESC # '']1337;CurrentDir=/tmp/x'' @ BEL # ''b'') = [''/tmp/x'']
   \<and> handle_output (''a'' @ ESC # '']1337;CurrentDir=/tmp/x'' @ BEL # ''b'') empty_screen
       = Some (Inr \<lparr>doc = map Ch ''ab'', pos = 2\<rparr>)
   \<and> doc_lines (map Ch ''ab'') = [''ab'']
   \<and> handle_output (''a'' @ ESC # '']1337;CurrentDir=/tmp/x'' @ BEL # ''b'') s
       = handle_output ''ab'' s"
proof -
  have e: "extract_directories (''a'' @ ESC # '']1337;CurrentDir=/tmp/x'' @ BEL # ''b'')
             = [''/tmp/x'']"
    by (simp add: extract_directories_def extract_loop.simps OSC_DIR_PREFIX_def ctrl_defs)
  have g: "handle_output (''a'' @ ESC # '']1337;CurrentDir=/tmp/x'' @ BEL # ''b'') s
             = handle_output ''ab'' s" for s
    by (simp add: handle_output_def ctrl_defs)
  have h: "handle_output ''ab'' empty_screen = Some (Inr \<lparr>doc = map Ch ''ab'', pos = 2\<rparr>)"
    by (simp add: handle_output_def ctrl_defs empty_screen_def write_char_def insertText_def)
  show ?thesis
    by (simp only: e g h) simp
qed

section \<open>The programmatic write API\<close>

text \<open>
  Claim C9.  \<open>send_command\<close> with \<open>add_newline\<close> false passes exactly the encoded command
  to one \<open>os.write\<close>, with no line terminator appended, and emits no command: the
  emitted commands, the command buffer and everything else are as before.  This holds
  for every command, so in particular for every command that does not end in a newline.
\<close>

theorem send_command_no_newline:
  "send_command command False t = t\<lparr>written := written t @ [encode command]\<rparr>
   \<and> executed (send_command command False t) = executed t
   \<and> input_buffer (send_command command False t) = input_buffer t"
  by (simp add: send_command_def os_write_def)

section \<open>The copy-or-interrupt key\<close>

text \<open>
  Claim C10.  When the event matches the copy key sequence and text is selected, nothing
  is written to the PTY and the command buffer (and the emitted commands) stay as they
  are: only the clipboard receives the selection.  Without a selection the single byte
  0x03 is written and the command buffer is cleared.
\<close>

theorem copy_key_with_and_without_selection:
  assumes "matches_Copy event"
  shows "(selection t \<noteq> [] \<longrightarrow>
           keyPressEvent event t = t\<lparr>clipboard := selection t\<rparr>
           \<and> written (keyPressEvent event t) = written t
           \<and> input_buffer (keyPressEvent event t) = input_buffer t)
       \<and> (selection t = [] \<longrightarrow>
           keyPressEvent event t
             = t\<lparr>written := written t @ [[CHR 0x03]], input_buffer := []\<rparr>)"
  using assms by (simp add: keyPressEvent_def os_write_def)

theorem copy_key_with_and_without_selection_witness:
  "matches_Copy \<lparr>matches_Copy = True, matches_Paste = False, key = Key_Other, key_text = [CHR 0x03]\<rparr>
   \<and> keyPressEvent \<lparr>matches_Copy = True, matches_Paste = False, key = Key_Other, key_text = [CHR 0x03]\<rparr>
        \<lparr>input_buffer = ''ls'', written = [], executed = [], clipboard = [], selection = ''abc''\<rparr>
      = \<lparr>input_buffer = ''ls'', written = [], executed = [], clipboard = ''abc'', selection = ''abc''\<rparr>
   \<and> keyPressEvent \<lparr>matches_Copy = True, matches_Paste = False, key = Key_Other, key_text = [CHR 0x03]\<rparr>
        \<lparr>input_buffer = ''ls'', written = [], executed = [], clipboard = [], selection = []\<rparr>
      = \<lparr>input_buffer = [], written = [[CHR 0x03]], executed = [], clipboard = [], selection = []\<rparr>"
  using copy_key_with_and_without_selection
    [of "\<lparr>matches_Copy = True, matches_Paste = False, key = Key_Other, key_text = [CHR 0x03]\<rparr>"
        "\<lparr>input_buffer = ''ls'', written = [], executed = [], clipboard = [], selection = ''abc''\<rparr>"]
    copy_key_with_and_without_selection
    [of "\<lparr>matches_Copy = True, matches_Paste = False, key = Key_Other, key_text = [CHR 0x03]\<rparr>"
        "\<lparr>input_buffer = ''ls'', written = [], executed = [], clipboard = [], selection = []\<rparr>"]
  by simp

section \<open>Lines of a document\<close>

lemma doc_lines_nonempty [simp]: "doc_lines d \<noteq> []"
  by (induction d rule: doc_lines.induct) auto

lemma doc_lines_append_ParSep: "doc_lines (xs @ ParSep # ys) = doc_lines xs @ doc_lines ys"
  by (induction xs rule: doc_lines.induct) (auto simp: hd_append)

lemma doc_lines_append:
  "doc_lines (xs @ ys)
     = butlast (doc_lines xs) @ (last (doc_lines xs) @ hd (doc_lines ys)) # tl (doc_lines ys)"
proof (induction xs rule: doc_lines.induct)
  case 1
  then show ?case by simp
next
  case (2 cs)
  then show ?case by simp
next
  case (3 c cs)
  then show ?case
    by (cases "doc_lines cs") (auto simp: hd_append split: if_splits)
qed

lemma length_doc_lines: "length (doc_lines d) = Suc (length (filter (\<lambda>c. c = ParSep) d))"
  by (induction d rule: doc_lines.induct) auto

lemma hd_doc_lines: "map Ch (hd (doc_lines d)) = takeWhile (\<lambda>c. c \<noteq> ParSep) d"
  by (induction d rule: doc_lines.induct) auto

lemma last_doc_lines: "map Ch (last (doc_lines d)) = rev (takeWhile (\<lambda>c. c \<noteq> ParSep) (rev d))"
proof (induction d rule: rev_induct)
  case Nil
  then show ?case by simp
next
  case (snoc x xs)
  show ?case
  proof (cases x)
    case (Ch c)
    have "doc_lines (xs @ [Ch c]) = butlast (doc_lines xs) @ [last (doc_lines xs) @ [c]]"
      using doc_lines_append [of xs "[Ch c]"] by simp
    with snoc Ch show ?thesis by simp
  next
    case ParSep
    then show ?thesis using doc_lines_append_ParSep [of xs "[]"] by simp
  qed
qed

section \<open>Absolute cursor positioning\<close>

lemma extend_blocks_two:
  "length (filter (\<lambda>c. c = ParSep) d) = 1 \<Longrightarrow> extend_blocks d 3 = Some (d @ [ParSep])"
  by (simp add: extend_blocks.simps [of d] extend_blocks.simps [of "d @ [ParSep]"] blockCount_def)

lemma block_position_last:
  "length (filter (\<lambda>c. c = ParSep) d) = k \<Longrightarrow> block_position (d @ [ParSep]) (Suc k) = Suc (length d)"
  by (induction d arbitrary: k) auto

lemma cursor_target_3_5: "cursor_target ''3;5'' = Inr (3, 5)"
  by (simp add: cursor_target_def py_int_def int_space_def isdigit_def)

lemma goto_3_5:
  assumes c: "length (filter (\<lambda>c. c = ParSep) (doc s)) = 1"
  shows "handle_output (ESC # ''[3;5H'') s
           = Some (Inr \<lparr>doc = doc s @ [ParSep], pos = Suc (length (doc s))\<rparr>)"
proof -
  have bp: "block_position (doc s @ [ParSep]) 2 = Suc (length (doc s))"
    using block_position_last [OF c] by (simp add: numeral_2_eq_2)
  have "cursor_position ''3;5'' s = Some (Inr \<lparr>doc = doc s @ [ParSep], pos = Suc (length (doc s))\<rparr>)"
    by (simp add: cursor_position_def cursor_target_3_5 c_int_def extend_blocks_two [OF c] bp)
  then show ?thesis
    by (simp add: handle_output_def ctrl_defs isalpha_def csi_dispatch_def)
qed

text \<open>
  Claim C3, as the code has it.  On a buffer of exactly two lines, \<open>ESC [ 3 ; 5 H\<close> appends
  one empty line, so that the buffer has three lines, and puts the cursor on it: line
  index 2.  The requested column index 4 is clamped to the length of that line, which
  is empty: the cursor is at column 0.
\<close>

theorem cursor_position_3_5_two_lines:
  assumes "length (doc_lines (doc s)) = 2"
  shows "handle_output (ESC # ''[3;5H'') s
           = Some (Inr \<lparr>doc = doc s @ [ParSep], pos = Suc (length (doc s))\<rparr>)
       \<and> doc_lines (doc s @ [ParSep]) = doc_lines (doc s) @ [[]]
       \<and> cursor_line \<lparr>doc = doc s @ [ParSep], pos = Suc (length (doc s))\<rparr> = 2
       \<and> cursor_col \<lparr>doc = doc s @ [ParSep], pos = Suc (length (doc s))\<rparr> = 0"
proof -
  have b: "length (filter (\<lambda>c. c = ParSep) (doc s)) = 1"
    using assms by (simp add: length_doc_lines)
  have r: "handle_output (ESC # ''[3;5H'') s
             = Some (Inr \<lparr>doc = doc s @ [ParSep], pos = Suc (length (doc s))\<rparr>)"
    by (rule goto_3_5 [OF b])
  have l: "doc_lines (doc s @ [ParSep]) = doc_lines (doc s) @ [[]]"
    using doc_lines_append_ParSep [of "doc s" "[]"] by simp
  have n: "cursor_line \<lparr>doc = doc s @ [ParSep], pos = Suc (length (doc s))\<rparr> = 2"
    using b by (simp add: cursor_line_def)
  have c: "cursor_col \<lparr>doc = doc s @ [ParSep], pos = Suc (length (doc s))\<rparr> = 0"
    by (simp add: cursor_col_def block_start_def)
  show ?thesis
    using r l n c by simp
qed

theorem cursor_position_3_5_two_lines_witness:
  "length (doc_lines (doc \<lparr>doc = [Ch CHR ''a'', ParSep, Ch CHR ''b''], pos = 1\<rparr>)) = 2
   \<and> handle_output (ESC # ''[3;5H'') \<lparr>doc = [Ch CHR ''a'', ParSep, Ch CHR ''b''], pos = 1\<rparr>
       = Some (Inr \<lparr>doc = [Ch CHR ''a'', ParSep, Ch CHR ''b'', ParSep], pos = 4\<rparr>)
   \<and> doc_lines [Ch CHR ''a'', ParSep, Ch CHR ''b'', ParSep] = [''a'', ''b'', []]
   \<and> cursor_line \<lparr>doc = [Ch CHR ''a'', ParSep, Ch CHR ''b'', ParSep], pos = 4\<rparr> = 2
   \<and> cursor_col \<lparr>doc = [Ch CHR ''a'', ParSep, Ch CHR ''b'', ParSep], pos = 4\<rparr> = 0"
  using cursor_position_3_5_two_lines [of "\<lparr>doc = [Ch CHR ''a'', ParSep, Ch CHR ''b''], pos = 1\<rparr>"]
  by (simp add: cursor_line_def cursor_col_def block_start_def)

text \<open>
  The claim as written asks for column index 4.  On the two lines \<open>ab\<close> and \<open>cd\<close> the
  cursor ends on line index 2, and its column is not 4.
\<close>

theorem cursor_position_3_5_column_counterexample:
  "handle_output (ESC # ''[3;5H'') \<lparr>doc = map Ch ''ab'' @ ParSep # map Ch ''cd'', pos = 0\<rparr>
     = Some (Inr \<lparr>doc = map Ch ''ab'' @ ParSep # map Ch ''cd'' @ [ParSep], pos = 6\<rparr>)
   \<and> cursor_line \<lparr>doc = map Ch ''ab'' @ ParSep # map Ch ''cd'' @ [ParSep], pos = 6\<rparr> = 2
   \<and> cursor_col \<lparr>doc = map Ch ''ab'' @ ParSep # map Ch ''cd'' @ [ParSep], pos = 6\<rparr> \<noteq> 4"
  by code_simp

section \<open>The cursor as line and column\<close>

lemma doc_lines_snoc_Ch:
  "doc_lines (xs @ [Ch c]) = butlast (doc_lines xs) @ [last (doc_lines xs) @ [c]]"
  using doc_lines_append [of xs "[Ch c]"] by simp

lemma doc_lines_snoc_ParSep: "doc_lines (xs @ [ParSep]) = doc_lines xs @ [[]]"
  using doc_lines_append_ParSep [of xs "[]"] by simp

lemma lines_at_cursor:
  "doc_lines d
     = butlast (doc_lines (take p d))
         @ (last (doc_lines (take p d)) @ hd (doc_lines (drop p d))) # tl (doc_lines (drop p d))"
  using doc_lines_append [of "take p d" "drop p d"] by simp

lemma cursor_line_lines: "cursor_line s = length (butlast (doc_lines (take (pos s) (doc s))))"
  by (simp add: cursor_line_def length_doc_lines)

lemma takeWhile_rev_take_le: "length (takeWhile P (rev (take p d))) \<le> p"
  using length_takeWhile_le [of P "rev (take p d)"] by simp

lemma cursor_col_lines:
  "cursor_col s = length (last (doc_lines (take (pos s) (doc s))))"
proof -
  have "length (last (doc_lines (take (pos s) (doc s))))
          = length (map Ch (last (doc_lines (take (pos s) (doc s)))))"
    by simp
  also have "\<dots> = length (takeWhile (\<lambda>c. c \<noteq> ParSep) (rev (take (pos s) (doc s))))"
    by (simp only: last_doc_lines length_rev)
  finally show ?thesis
    using takeWhile_rev_take_le [of "\<lambda>c. c \<noteq> ParSep" "pos s" "doc s"]
    by (simp add: cursor_col_def block_start_def)
qed

lemma current_line:
  "doc_lines (doc s) ! cursor_line s
     = last (doc_lines (take (pos s) (doc s))) @ hd (doc_lines (drop (pos s) (doc s)))"
  by (subst lines_at_cursor [of "doc s" "pos s"]) (simp add: cursor_line_lines nth_append)

lemma drop_block_start:
  assumes "p \<le> length d"
  shows "drop (block_start d p) d = rev (takeWhile (\<lambda>c. c \<noteq> ParSep) (rev (take p d))) @ drop p d"
proof -
  let ?r = "rev (take p d)"
  let ?P = "\<lambda>c. c \<noteq> ParSep"
  have "take p d = rev (dropWhile ?P ?r) @ rev (takeWhile ?P ?r)"
    by (metis rev_append rev_rev_ident takeWhile_dropWhile_id)
  then have d: "d = rev (dropWhile ?P ?r) @ rev (takeWhile ?P ?r) @ drop p d"
    by (metis append.assoc append_take_drop_id)
  have "length (takeWhile ?P ?r) + length (dropWhile ?P ?r) = length ?r"
    by (metis length_append takeWhile_dropWhile_id)
  then have "length (rev (dropWhile ?P ?r)) = block_start d p"
    using assms by (simp add: block_start_def)
  then show ?thesis
    by (metis d append_eq_conv_conj)
qed

lemma block_end_block_start:
  assumes "p \<le> length d"
  shows "block_end d (block_start d p) = block_end d p"
proof -
  let ?t = "takeWhile (\<lambda>c. c \<noteq> ParSep) (rev (take p d))"
  have "takeWhile (\<lambda>c. c \<noteq> ParSep) (rev ?t @ drop p d)
          = rev ?t @ takeWhile (\<lambda>c. c \<noteq> ParSep) (drop p d)"
    by (rule takeWhile_append2) (auto dest: set_takeWhileD)
  moreover have "length ?t \<le> p"
    by (rule takeWhile_rev_take_le)
  ultimately show ?thesis
    using assms by (simp add: block_end_def drop_block_start) (simp add: block_start_def)
qed


lemma split_block_end:
  assumes "p \<le> length d"
  shows "take (block_end d p) d = take p d @ takeWhile (\<lambda>c. c \<noteq> ParSep) (drop p d)"
    and "drop (block_end d p) d = dropWhile (\<lambda>c. c \<noteq> ParSep) (drop p d)"
proof -
  let ?P = "\<lambda>c. c \<noteq> ParSep"
  have d: "d = (take p d @ takeWhile ?P (drop p d)) @ dropWhile ?P (drop p d)"
    by simp
  have l: "length (take p d @ takeWhile ?P (drop p d)) = block_end d p"
    using assms by (simp add: block_end_def)
  show "take (block_end d p) d = take p d @ takeWhile ?P (drop p d)"
    by (metis d l append_eq_conv_conj)
  show "drop (block_end d p) d = dropWhile ?P (drop p d)"
    by (metis d l append_eq_conv_conj)
qed

lemma block_end_le: "p \<le> length d \<Longrightarrow> block_end d p \<le> length d"
  using length_takeWhile_le [of "\<lambda>c. c \<noteq> ParSep" "drop p d"] by (simp add: block_end_def)

lemma doc_lines_takeWhile_append:
  "doc_lines (xs @ takeWhile (\<lambda>c. c \<noteq> ParSep) ys)
     = butlast (doc_lines xs) @ [last (doc_lines xs) @ hd (doc_lines ys)]"
proof -
  have "doc_lines (takeWhile (\<lambda>c. c \<noteq> ParSep) ys) = [hd (doc_lines ys)]"
    by (induction ys rule: doc_lines.induct) auto
  then show ?thesis
    by (simp add: doc_lines_append [of xs])
qed

lemma newline_lines:
  assumes "p \<le> length d"
  shows "doc_lines (take (block_end d p) d @ ParSep # drop (block_end d p) d)
           = butlast (doc_lines (take p d))
               @ (last (doc_lines (take p d)) @ hd (doc_lines (drop p d))) # [] # tl (doc_lines (drop p d))"
proof -
  let ?P = "\<lambda>c. c \<noteq> ParSep"
  have t: "doc_lines (dropWhile ?P ys) = (if dropWhile ?P ys = [] then [[]] else [] # tl (doc_lines ys))" for ys
    by (induction ys rule: doc_lines.induct) auto
  have u: "dropWhile ?P ys = [] \<Longrightarrow> tl (doc_lines ys) = []" for ys
    by (induction ys rule: doc_lines.induct) (auto split: if_splits)
  have "doc_lines (dropWhile ?P (drop p d)) = [] # tl (doc_lines (drop p d))"
    using t [of "drop p d"] u [of "drop p d"] by (auto split: if_splits)
  then show ?thesis
    by (simp add: split_block_end [OF assms] doc_lines_append_ParSep doc_lines_takeWhile_append
        del: append_assoc add: append_assoc [symmetric])
qed


section \<open>Carriage return and line feed\<close>

lemma handle_newline: "handle_output [LF] s = Some (Inr (insertBlock (cursor_to_line_end s)))"
  by (simp add: handle_output_def ctrl_defs)

lemma handle_cr_newline:
  "handle_output [CR, LF] s = Some (Inr (insertBlock (cursor_to_line_end (cursor_to_line_start s))))"
  by (simp add: handle_output_def ctrl_defs)

lemma block_start_le: "block_start d p \<le> p"
  by (simp add: block_start_def)

lemma insert_after:
  "take (Suc (length xs)) (xs @ y # zs) @ v # drop (Suc (length xs)) (xs @ y # zs) = xs @ y # v # zs"
  by simp

text \<open>
  Claim C5.  On every buffer state, the two characters \<open>CR LF\<close> give exactly the state
  that \<open>LF\<close> alone gives: an empty line is inserted directly after the cursor's line,
  and the cursor stands on it at column 0; all other lines are as they were.
\<close>

theorem crlf_same_as_lf:
  assumes "wf_screen s"
  shows "handle_output [CR, LF] s = handle_output [LF] s
       \<and> handle_output [LF] s = Some (Inr (insertBlock (cursor_to_line_end s)))
       \<and> doc_lines (doc (insertBlock (cursor_to_line_end s)))
           = take (Suc (cursor_line s)) (doc_lines (doc s))
               @ [] # drop (Suc (cursor_line s)) (doc_lines (doc s))
       \<and> cursor_line (insertBlock (cursor_to_line_end s)) = Suc (cursor_line s)
       \<and> cursor_col (insertBlock (cursor_to_line_end s)) = 0"
proof -
  let ?d = "doc s" and ?p = "pos s"
  let ?e = "block_end ?d ?p"
  let ?B = "doc_lines (take ?p ?d)" and ?A = "doc_lines (drop ?p ?d)"
  have p: "?p \<le> length ?d"
    using assms by (simp add: wf_screen_def)
  have e: "?e \<le> length ?d"
    by (rule block_end_le [OF p])
  have same: "handle_output [CR, LF] s = handle_output [LF] s"
    by (simp add: handle_newline handle_cr_newline cursor_to_line_end_def
        cursor_to_line_start_def block_end_block_start [OF p])
  have r: "insertBlock (cursor_to_line_end s)
             = \<lparr>doc = take ?e ?d @ ParSep # drop ?e ?d, pos = Suc ?e\<rparr>"
    by (simp add: cursor_to_line_end_def insertBlock_def)
  have row: "cursor_line s = length (butlast ?B)"
    by (rule cursor_line_lines)
  have old: "doc_lines ?d = butlast ?B @ (last ?B @ hd ?A) # tl ?A"
    by (rule lines_at_cursor)
  have new: "doc_lines (take ?e ?d @ ParSep # drop ?e ?d)
               = butlast ?B @ (last ?B @ hd ?A) # [] # tl ?A"
    by (rule newline_lines [OF p])
  have lines: "doc_lines (take ?e ?d @ ParSep # drop ?e ?d)
                 = take (Suc (cursor_line s)) (doc_lines ?d)
                     @ [] # drop (Suc (cursor_line s)) (doc_lines ?d)"
    by (simp only: new row old insert_after)
  have tk: "take (Suc ?e) (take ?e ?d @ ParSep # drop ?e ?d) = take ?e ?d @ [ParSep]"
    using e by simp
  have f: "filter (\<lambda>c. c = ParSep) (take ?e ?d) = filter (\<lambda>c. c = ParSep) (take ?p ?d)"
    unfolding split_block_end(1) [OF p] by (auto simp: filter_empty_conv dest: set_takeWhileD)
  have "cursor_line \<lparr>doc = take ?e ?d @ ParSep # drop ?e ?d, pos = Suc ?e\<rparr>
          = length (filter (\<lambda>c. c = ParSep) (take ?e ?d @ [ParSep]))"
    unfolding cursor_line_def by (simp only: screen.select_convs tk)
  then have line: "cursor_line \<lparr>doc = take ?e ?d @ ParSep # drop ?e ?d, pos = Suc ?e\<rparr>
                = Suc (cursor_line s)"
    by (simp add: f cursor_line_def)
  have "cursor_col \<lparr>doc = take ?e ?d @ ParSep # drop ?e ?d, pos = Suc ?e\<rparr>
          = Suc ?e - (Suc ?e - length (takeWhile (\<lambda>c. c \<noteq> ParSep) (rev (take ?e ?d @ [ParSep]))))"
    unfolding cursor_col_def block_start_def by (simp only: screen.select_convs tk)
  then have col: "cursor_col \<lparr>doc = take ?e ?d @ ParSep # drop ?e ?d, pos = Suc ?e\<rparr> = 0"
    by simp
  show ?thesis
    unfolding same handle_newline r using lines line col by simp
qed

theorem crlf_same_as_lf_witness:
  "wf_screen \<lparr>doc = map Ch ''ab'' @ ParSep # map Ch ''cd'', pos = 1\<rparr>
   \<and> handle_output [CR, LF] \<lparr>doc = map Ch ''ab'' @ ParSep # map Ch ''cd'', pos = 1\<rparr>
       = handle_output [LF] \<lparr>doc = map Ch ''ab'' @ ParSep # map Ch ''cd'', pos = 1\<rparr>
   \<and> handle_output [LF] \<lparr>doc = map Ch ''ab'' @ ParSep # map Ch ''cd'', pos = 1\<rparr>
       = Some (Inr \<lparr>doc = map Ch ''ab'' @ ParSep # ParSep # map Ch ''cd'', pos = 3\<rparr>)
   \<and> doc_lines (map Ch ''ab'' @ ParSep # ParSep # map Ch ''cd'') = [''ab'', [], ''cd'']
   \<and> cursor_line \<lparr>doc = map Ch ''ab'' @ ParSep # ParSep # map Ch ''cd'', pos = 3\<rparr> = 1
   \<and> cursor_col \<lparr>doc = map Ch ''ab'' @ ParSep # ParSep # map Ch ''cd'', pos = 3\<rparr> = 0"
  using crlf_same_as_lf [of "\<lparr>doc = map Ch ''ab'' @ ParSep # map Ch ''cd'', pos = 1\<rparr>"]
  by (simp add: wf_screen_def cursor_to_line_end_def insertBlock_def block_end_def
      cursor_line_def cursor_col_def block_start_def)

lemma cursor_view:
  obtains ups lft rgt downs where
    "doc_lines (take (pos s) (doc s)) = ups @ [lft]"
    "doc_lines (drop (pos s) (doc s)) = rgt # downs"
    "doc_lines (doc s) = ups @ (lft @ rgt) # downs"
    "cursor_line s = length ups"
    "cursor_col s = length lft"
proof -
  obtain ups lft where b: "doc_lines (take (pos s) (doc s)) = ups @ [lft]"
    using doc_lines_nonempty [of "take (pos s) (doc s)"] by (meson rev_exhaust)
  obtain rgt downs where a: "doc_lines (drop (pos s) (doc s)) = rgt # downs"
    using doc_lines_nonempty [of "drop (pos s) (doc s)"] by (meson list.exhaust)
  have "doc_lines (doc s) = ups @ (lft @ rgt) # downs"
    using lines_at_cursor [of "doc s" "pos s"] by (simp add: a b)
  moreover have "cursor_line s = length ups"
    by (simp add: cursor_line_lines b)
  moreover have "cursor_col s = length lft"
    by (simp add: cursor_col_lines b)
  ultimately show ?thesis
    using that a b by blast
qed

lemma cursor_of_split:
  assumes "doc_lines b = ups @ [lft]"
  shows "cursor_line \<lparr>doc = b @ a, pos = length b\<rparr> = length ups"
    and "cursor_col \<lparr>doc = b @ a, pos = length b\<rparr> = length lft"
  using assms by (simp_all add: cursor_line_lines cursor_col_lines)

lemma doc_lines_split:
  assumes "doc_lines b = ups @ [lft]" and "doc_lines a = rgt # downs"
  shows "doc_lines (b @ a) = ups @ (lft @ rgt) # downs"
  using assms by (simp add: doc_lines_append [of b a])

section \<open>Writing a character\<close>

lemma handle_printable:
  assumes "c \<notin> {CR, LF, BS, DEL, BEL, ESC}"
  shows "handle_output [c] s = Some (Inr (write_char c s))"
  using assms by (simp add: handle_output_def)

lemma on_char_iff:
  assumes "wf_screen s"
  shows "(cursor_col s < length (doc_lines (doc s) ! cursor_line s))
           = (pos s < length (doc s) \<and> doc s ! pos s \<noteq> ParSep)"
proof -
  let ?a = "drop (pos s) (doc s)"
  have "length (doc_lines (doc s) ! cursor_line s) = cursor_col s + length (hd (doc_lines ?a))"
    by (simp add: current_line cursor_col_lines)
  moreover have "length (hd (doc_lines ?a)) = length (takeWhile (\<lambda>c. c \<noteq> ParSep) ?a)"
    using hd_doc_lines [of ?a] by (metis length_map)
  moreover have "(0 < length (takeWhile (\<lambda>c. c \<noteq> ParSep) ?a))
                   = (pos s < length (doc s) \<and> doc s ! pos s \<noteq> ParSep)"
  proof (cases "pos s < length (doc s)")
    case True
    then have "?a = doc s ! pos s # drop (Suc (pos s)) (doc s)"
      by (simp add: Cons_nth_drop_Suc)
    with True show ?thesis by simp
  next
    case False
    then show ?thesis by simp
  qed
  ultimately show ?thesis by simp
qed


lemma write_char_split:
  assumes "length b = p"
  shows "write_char c \<lparr>doc = b @ Ch x # a, pos = p\<rparr> = \<lparr>doc = (b @ [Ch c]) @ a, pos = length (b @ [Ch c])\<rparr>"
    and "write_char c \<lparr>doc = b @ ParSep # a, pos = p\<rparr>
           = \<lparr>doc = (b @ [Ch c]) @ ParSep # a, pos = length (b @ [Ch c])\<rparr>"
    and "write_char c \<lparr>doc = b, pos = p\<rparr> = \<lparr>doc = (b @ [Ch c]) @ [], pos = length (b @ [Ch c])\<rparr>"
  using assms by (simp_all add: write_char_def insertText_def nth_append)

lemma screen_split:
  assumes "wf_screen s"
  shows "s = \<lparr>doc = take (pos s) (doc s) @ drop (pos s) (doc s), pos = length (take (pos s) (doc s))\<rparr>"
  using assms by (simp add: wf_screen_def min_absorb2)

lemma overwrite_lines:
  assumes "doc_lines b = ups @ [lft]"
  shows "doc_lines ((b @ [Ch c]) @ a) = ups @ (lft @ c # hd (doc_lines a)) # tl (doc_lines a)"
    and "doc_lines (b @ Ch x # a)
           = ups @ (lft @ x # hd (doc_lines a)) # tl (doc_lines a)"
  using assms by (simp_all add: doc_lines_append [of b])

lemma write_on_char:
  assumes "length b = p"
  shows "doc_lines (doc (write_char c \<lparr>doc = b @ Ch x # a, pos = p\<rparr>))
           = (doc_lines (b @ Ch x # a))
               [cursor_line \<lparr>doc = b @ Ch x # a, pos = p\<rparr>
                  := (doc_lines (b @ Ch x # a) ! cursor_line \<lparr>doc = b @ Ch x # a, pos = p\<rparr>)
                       [cursor_col \<lparr>doc = b @ Ch x # a, pos = p\<rparr> := c]]"
    and "cursor_line (write_char c \<lparr>doc = b @ Ch x # a, pos = p\<rparr>)
           = cursor_line \<lparr>doc = b @ Ch x # a, pos = p\<rparr>"
    and "cursor_col (write_char c \<lparr>doc = b @ Ch x # a, pos = p\<rparr>)
           = Suc (cursor_col \<lparr>doc = b @ Ch x # a, pos = p\<rparr>)"
proof -
  obtain ups lft where b: "doc_lines b = ups @ [lft]"
    using doc_lines_nonempty [of b] by (meson rev_exhaust)
  have b': "doc_lines (b @ [Ch c]) = ups @ [lft @ [c]]"
    by (simp add: doc_lines_snoc_Ch b)
  have old: "cursor_line \<lparr>doc = b @ Ch x # a, pos = p\<rparr> = length ups"
    "cursor_col \<lparr>doc = b @ Ch x # a, pos = p\<rparr> = length lft"
    using cursor_of_split [OF b, of "Ch x # a"] assms by simp_all
  have new: "cursor_line \<lparr>doc = (b @ [Ch c]) @ a, pos = length (b @ [Ch c])\<rparr> = length ups"
    "cursor_col \<lparr>doc = (b @ [Ch c]) @ a, pos = length (b @ [Ch c])\<rparr> = Suc (length lft)"
    using cursor_of_split [OF b', of a] by simp_all
  show "doc_lines (doc (write_char c \<lparr>doc = b @ Ch x # a, pos = p\<rparr>))
           = (doc_lines (b @ Ch x # a))
               [cursor_line \<lparr>doc = b @ Ch x # a, pos = p\<rparr>
                  := (doc_lines (b @ Ch x # a) ! cursor_line \<lparr>doc = b @ Ch x # a, pos = p\<rparr>)
                       [cursor_col \<lparr>doc = b @ Ch x # a, pos = p\<rparr> := c]]"
    unfolding write_char_split(1) [OF assms] old overwrite_lines(2) [OF b]
    by (simp add: overwrite_lines(2) [OF b])
  show "cursor_line (write_char c \<lparr>doc = b @ Ch x # a, pos = p\<rparr>)
           = cursor_line \<lparr>doc = b @ Ch x # a, pos = p\<rparr>"
    unfolding write_char_split(1) [OF assms] old new ..
  show "cursor_col (write_char c \<lparr>doc = b @ Ch x # a, pos = p\<rparr>)
           = Suc (cursor_col \<lparr>doc = b @ Ch x # a, pos = p\<rparr>)"
    unfolding write_char_split(1) [OF assms] old new ..
qed


lemma write_at_line_end:
  assumes "length b = p" and "hd (doc_lines a) = []"
  shows "doc_lines (doc (write_char c \<lparr>doc = b @ a, pos = p\<rparr>))
           = (doc_lines (b @ a))
               [cursor_line \<lparr>doc = b @ a, pos = p\<rparr>
                  := doc_lines (b @ a) ! cursor_line \<lparr>doc = b @ a, pos = p\<rparr> @ [c]]"
    and "cursor_line (write_char c \<lparr>doc = b @ a, pos = p\<rparr>) = cursor_line \<lparr>doc = b @ a, pos = p\<rparr>"
    and "cursor_col (write_char c \<lparr>doc = b @ a, pos = p\<rparr>)
           = Suc (cursor_col \<lparr>doc = b @ a, pos = p\<rparr>)"
proof -
  obtain ups lft where b: "doc_lines b = ups @ [lft]"
    using doc_lines_nonempty [of b] by (meson rev_exhaust)
  have b': "doc_lines (b @ [Ch c]) = ups @ [lft @ [c]]"
    by (simp add: doc_lines_snoc_Ch b)
  have a: "a = [] \<or> (\<exists>a'. a = ParSep # a')"
    using assms(2) by (cases a rule: doc_lines.cases) auto
  have w: "write_char c \<lparr>doc = b @ a, pos = p\<rparr>
             = \<lparr>doc = (b @ [Ch c]) @ a, pos = length (b @ [Ch c])\<rparr>"
    using a write_char_split(2,3) [OF assms(1), of c] by auto
  have old: "cursor_line \<lparr>doc = b @ a, pos = p\<rparr> = length ups"
    "cursor_col \<lparr>doc = b @ a, pos = p\<rparr> = length lft"
    using cursor_of_split [OF b, of a] assms by simp_all
  have new: "cursor_line \<lparr>doc = (b @ [Ch c]) @ a, pos = length (b @ [Ch c])\<rparr> = length ups"
    "cursor_col \<lparr>doc = (b @ [Ch c]) @ a, pos = length (b @ [Ch c])\<rparr> = Suc (length lft)"
    using cursor_of_split [OF b', of a] by simp_all
  have l1: "doc_lines (b @ a) = ups @ lft # tl (doc_lines a)"
    using assms(2) by (simp add: doc_lines_append [of b] b)
  have "doc_lines (b @ Ch c # a) = ups @ (lft @ c # hd (doc_lines a)) # tl (doc_lines a)"
    by (rule overwrite_lines(2) [OF b])
  then have l2: "doc_lines (b @ Ch c # a) = ups @ (lft @ [c]) # tl (doc_lines a)"
    by (simp add: assms(2))
  show "doc_lines (doc (write_char c \<lparr>doc = b @ a, pos = p\<rparr>))
           = (doc_lines (b @ a))
               [cursor_line \<lparr>doc = b @ a, pos = p\<rparr>
                  := doc_lines (b @ a) ! cursor_line \<lparr>doc = b @ a, pos = p\<rparr> @ [c]]"
    unfolding w old by (simp add: l1 l2)
  show "cursor_line (write_char c \<lparr>doc = b @ a, pos = p\<rparr>) = cursor_line \<lparr>doc = b @ a, pos = p\<rparr>"
    unfolding w old new ..
  show "cursor_col (write_char c \<lparr>doc = b @ a, pos = p\<rparr>)
           = Suc (cursor_col \<lparr>doc = b @ a, pos = p\<rparr>)"
    unfolding w old new ..
qed

lemma line_length_at_cursor:
  "length (doc_lines (doc s) ! cursor_line s)
     = cursor_col s + length (hd (doc_lines (drop (pos s) (doc s))))"
  by (simp add: current_line cursor_col_lines)

text \<open>
  Claim C6.  A character other than the six control characters the loop tests first is
  written at the cursor.  When the cursor stands on a character of its line, that
  character is replaced in place: the line keeps its length and nothing shifts.  When
  the cursor stands at the end of its line, the character is appended to the line.  In
  both cases the cursor stays on its line and advances one column.  From the line \<open>abc\<close>
  with the cursor at column 1, writing \<open>Z\<close> gives \<open>aZc\<close> with the cursor at column 2.
\<close>

theorem write_replaces_or_appends:
  assumes "wf_screen s" and "c \<notin> {CR, LF, BS, DEL, BEL, ESC}"
  shows "handle_output [c] s = Some (Inr (write_char c s))
       \<and> (cursor_col s < length (doc_lines (doc s) ! cursor_line s) \<longrightarrow>
            doc_lines (doc (write_char c s))
              = (doc_lines (doc s))
                  [cursor_line s := (doc_lines (doc s) ! cursor_line s)[cursor_col s := c]])
       \<and> (cursor_col s = length (doc_lines (doc s) ! cursor_line s) \<longrightarrow>
            doc_lines (doc (write_char c s))
              = (doc_lines (doc s))[cursor_line s := doc_lines (doc s) ! cursor_line s @ [c]])
       \<and> cursor_line (write_char c s) = cursor_line s
       \<and> cursor_col (write_char c s) = Suc (cursor_col s)
       \<and> handle_output ''Z'' \<lparr>doc = map Ch ''abc'', pos = 1\<rparr>
           = Some (Inr \<lparr>doc = map Ch ''aZc'', pos = 2\<rparr>)"
proof (cases "cursor_col s < length (doc_lines (doc s) ! cursor_line s)")
  case True
  let ?b = "take (pos s) (doc s)" and ?a = "drop (Suc (pos s)) (doc s)"
  from True have p: "pos s < length (doc s)" and n: "doc s ! pos s \<noteq> ParSep"
    using on_char_iff [OF assms(1)] by simp_all
  obtain x where x: "doc s ! pos s = Ch x"
    using n by (cases "doc s ! pos s") simp_all
  have d: "doc s = ?b @ Ch x # ?a"
    using id_take_nth_drop [OF p] x by simp
  have s: "s = \<lparr>doc = ?b @ Ch x # ?a, pos = pos s\<rparr>"
    by (rule screen.equality) (simp_all add: d [symmetric])
  have lb: "length ?b = pos s"
    using p by simp
  have e: "handle_output ''Z'' \<lparr>doc = map Ch ''abc'', pos = 1\<rparr>
             = Some (Inr \<lparr>doc = map Ch ''aZc'', pos = 2\<rparr>)"
    by (simp add: handle_output_def ctrl_defs write_char_def insertText_def)
  show ?thesis
    using True write_on_char [OF lb, of c x ?a] e
    unfolding handle_printable [OF assms(2)] s [symmetric]
    by (simp add: d [symmetric])
next
  case False
  let ?b = "take (pos s) (doc s)" and ?a = "drop (pos s) (doc s)"
  from False have h: "hd (doc_lines ?a) = []"
    using line_length_at_cursor [of s] by simp
  have s: "\<lparr>doc = doc s, pos = pos s\<rparr> = s"
    by simp
  have lb: "length ?b = pos s"
    using assms(1) by (simp add: wf_screen_def)
  have e: "handle_output ''Z'' \<lparr>doc = map Ch ''abc'', pos = 1\<rparr>
             = Some (Inr \<lparr>doc = map Ch ''aZc'', pos = 2\<rparr>)"
    by (simp add: handle_output_def ctrl_defs write_char_def insertText_def)
  show ?thesis
    using False write_at_line_end [OF lb h, of c] e
    unfolding handle_printable [OF assms(2)]
    by (simp add: s)
qed

theorem write_replaces_or_appends_witness:
  "wf_screen \<lparr>doc = map Ch ''abc'', pos = 1\<rparr>
   \<and> CHR ''Z'' \<notin> {CR, LF, BS, DEL, BEL, ESC}
   \<and> cursor_col \<lparr>doc = map Ch ''abc'', pos = 1\<rparr>
       < length (doc_lines (doc \<lparr>doc = map Ch ''abc'', pos = 1\<rparr>)
           ! cursor_line \<lparr>doc = map Ch ''abc'', pos = 1\<rparr>)
   \<and> handle_output ''Z'' \<lparr>doc = map Ch ''abc'', pos = 1\<rparr>
       = Some (Inr \<lparr>doc = map Ch ''aZc'', pos = 2\<rparr>)
   \<and> doc_lines (doc (write_char CHR ''Z'' \<lparr>doc = map Ch ''abc'', pos = 1\<rparr>)) = [''aZc'']
   \<and> cursor_col (write_char CHR ''Z'' \<lparr>doc = map Ch ''abc'', pos = 1\<rparr>) = 2
   \<and> wf_screen \<lparr>doc = map Ch ''ab'' @ ParSep # map Ch ''cd'', pos = 2\<rparr>
   \<and> cursor_col \<lparr>doc = map Ch ''ab'' @ ParSep # map Ch ''cd'', pos = 2\<rparr>
       = length (doc_lines (doc \<lparr>doc = map Ch ''ab'' @ ParSep # map Ch ''cd'', pos = 2\<rparr>)
           ! cursor_line \<lparr>doc = map Ch ''ab'' @ ParSep # map Ch ''cd'', pos = 2\<rparr>)
   \<and> doc_lines (doc (write_char CHR ''Z'' \<lparr>doc = map Ch ''ab'' @ ParSep # map Ch ''cd'', pos = 2\<rparr>))
       = [''abZ'', ''cd'']"
  using write_replaces_or_appends [of "\<lparr>doc = map Ch ''abc'', pos = 1\<rparr>" "CHR ''Z''"]
    write_replaces_or_appends [of "\<lparr>doc = map Ch ''ab'' @ ParSep # map Ch ''cd'', pos = 2\<rparr>" "CHR ''Z''"]
  by (simp add: wf_screen_def ctrl_defs cursor_col_def cursor_line_def block_start_def
      write_char_def insertText_def)


section \<open>Backspace and DEL\<close>

lemma handle_backspace:
  assumes "c = BS \<or> c = DEL"
  shows "handle_output [c] s = Some (Inr (if pos s > 0 then deletePreviousChar s else s))"
  using assms by (auto simp: handle_output_def ctrl_defs)

lemma delete_split:
  "deletePreviousChar \<lparr>doc = (b @ [x]) @ a, pos = length (b @ [x])\<rparr> = \<lparr>doc = b @ a, pos = length b\<rparr>"
  by (simp add: deletePreviousChar_def)

lemma delete_char_lines:
  assumes "doc_lines b = ups @ [lft]" and "doc_lines a = rgt # downs"
  shows "cursor_line \<lparr>doc = (b @ [Ch y]) @ a, pos = length (b @ [Ch y])\<rparr> = length ups"
    and "cursor_col \<lparr>doc = (b @ [Ch y]) @ a, pos = length (b @ [Ch y])\<rparr> = Suc (length lft)"
    and "doc_lines ((b @ [Ch y]) @ a) = ups @ (lft @ y # rgt) # downs"
proof -
  have b': "doc_lines (b @ [Ch y]) = ups @ [lft @ [y]]"
    by (simp add: doc_lines_snoc_Ch assms(1))
  show "cursor_line \<lparr>doc = (b @ [Ch y]) @ a, pos = length (b @ [Ch y])\<rparr> = length ups"
    by (rule cursor_of_split(1) [OF b'])
  show "cursor_col \<lparr>doc = (b @ [Ch y]) @ a, pos = length (b @ [Ch y])\<rparr> = Suc (length lft)"
    using cursor_of_split(2) [OF b', of a] by simp
  show "doc_lines ((b @ [Ch y]) @ a) = ups @ (lft @ y # rgt) # downs"
    using doc_lines_split [OF b' assms(2)] by simp
qed

lemma delete_break_lines:
  assumes "doc_lines b = ups @ [lft]" and "doc_lines a = rgt # downs"
  shows "cursor_line \<lparr>doc = (b @ [ParSep]) @ a, pos = length (b @ [ParSep])\<rparr> = Suc (length ups)"
    and "cursor_col \<lparr>doc = (b @ [ParSep]) @ a, pos = length (b @ [ParSep])\<rparr> = 0"
    and "doc_lines ((b @ [ParSep]) @ a) = ups @ lft # rgt # downs"
proof -
  have b': "doc_lines (b @ [ParSep]) = (ups @ [lft]) @ [[]]"
    by (simp add: doc_lines_snoc_ParSep assms(1))
  show "cursor_line \<lparr>doc = (b @ [ParSep]) @ a, pos = length (b @ [ParSep])\<rparr> = Suc (length ups)"
    using cursor_of_split(1) [OF b', of a] by simp
  show "cursor_col \<lparr>doc = (b @ [ParSep]) @ a, pos = length (b @ [ParSep])\<rparr> = 0"
    using cursor_of_split(2) [OF b', of a] by simp
  show "doc_lines ((b @ [ParSep]) @ a) = ups @ lft # rgt # downs"
    using doc_lines_split [OF b' assms(2)] by simp
qed

text \<open>
  Claim C2, as the code has it.  The guard of the backspace branch is on the position in
  the document, not on the column.  So a backspace or DEL deletes what stands
  immediately before the cursor whenever the cursor is not at the very start of the
  buffer.  At a column greater than 0 that is the character before the cursor in its
  line: the lines stay as many, and the cursor moves one column to the left.  At column
  0 of a line that is not the first, it is the line break: the line is joined to the end
  of the previous one and the cursor stands at the join.  Only at column 0 of the first
  line is the state unchanged.
\<close>

theorem backspace_deletes_before_cursor:
  assumes "wf_screen s" and "c = BS \<or> c = DEL"
  shows "(0 < cursor_col s \<longrightarrow>
            handle_output [c] s = Some (Inr (deletePreviousChar s))
            \<and> doc_lines (doc (deletePreviousChar s))
              = (doc_lines (doc s))
                  [cursor_line s := take (cursor_col s - 1) (doc_lines (doc s) ! cursor_line s)
                                      @ drop (cursor_col s) (doc_lines (doc s) ! cursor_line s)]
            \<and> cursor_line (deletePreviousChar s) = cursor_line s
            \<and> cursor_col (deletePreviousChar s) = cursor_col s - 1)
       \<and> (cursor_col s = 0 \<and> 0 < cursor_line s \<longrightarrow>
            handle_output [c] s = Some (Inr (deletePreviousChar s))
            \<and> doc_lines (doc (deletePreviousChar s))
              = take (cursor_line s - 1) (doc_lines (doc s))
                  @ (doc_lines (doc s) ! (cursor_line s - 1) @ doc_lines (doc s) ! cursor_line s)
                  # drop (Suc (cursor_line s)) (doc_lines (doc s))
            \<and> cursor_line (deletePreviousChar s) = cursor_line s - 1
            \<and> cursor_col (deletePreviousChar s) = length (doc_lines (doc s) ! (cursor_line s - 1)))
       \<and> (cursor_col s = 0 \<and> cursor_line s = 0 \<longrightarrow> handle_output [c] s = Some (Inr s))"
proof (cases "take (pos s) (doc s)" rule: rev_cases)
  case Nil
  then have "pos s = 0"
    using assms(1) by (auto simp: wf_screen_def)
  then show ?thesis
    by (simp add: handle_backspace [OF assms(2)] cursor_col_def cursor_line_def block_start_def)
next
  case (snoc b x)
  let ?a = "drop (pos s) (doc s)"
  have lb: "length (b @ [x]) = pos s"
    using snoc assms(1) by (metis length_take min_absorb2 wf_screen_def)
  have d: "doc s = (b @ [x]) @ ?a"
    using snoc by (metis append_take_drop_id)
  have s: "s = \<lparr>doc = (b @ [x]) @ ?a, pos = length (b @ [x])\<rparr>"
  proof (intro screen.equality)
    show "doc s = doc \<lparr>doc = (b @ [x]) @ ?a, pos = length (b @ [x])\<rparr>"
      unfolding screen.select_convs by (rule d)
    show "pos s = pos \<lparr>doc = (b @ [x]) @ ?a, pos = length (b @ [x])\<rparr>"
      unfolding screen.select_convs by (rule lb [symmetric])
  qed simp
  have p: "0 < pos s"
    using lb by simp
  have h: "handle_output [c] s = Some (Inr (deletePreviousChar s))"
    unfolding handle_backspace [OF assms(2)] using p by simp
  have r: "deletePreviousChar s = \<lparr>doc = b @ ?a, pos = length b\<rparr>"
    using delete_split [of b x ?a] s by simp
  obtain ups lft where b: "doc_lines b = ups @ [lft]"
    using doc_lines_nonempty [of b] by (meson rev_exhaust)
  obtain rgt downs where a: "doc_lines ?a = rgt # downs"
    using doc_lines_nonempty [of ?a] by (meson list.exhaust)
  note new = cursor_of_split [OF b, of ?a] doc_lines_split [OF b a]
  show ?thesis
  proof (cases x)
    case (Ch y)
    have s': "\<lparr>doc = (b @ [Ch y]) @ ?a, pos = length (b @ [Ch y])\<rparr> = s"
      using s Ch by simp
    have d': "(b @ [Ch y]) @ ?a = doc s"
      using d Ch by simp
    note old = delete_char_lines(1,2) [OF b a, of y, unfolded s']
      delete_char_lines(3) [OF b a, of y, unfolded d']
    show ?thesis
      unfolding h r old by (simp add: new)
  next
    case ParSep
    have s': "\<lparr>doc = (b @ [ParSep]) @ ?a, pos = length (b @ [ParSep])\<rparr> = s"
      using s ParSep by simp
    have d': "(b @ [ParSep]) @ ?a = doc s"
      using d ParSep by simp
    note old = delete_break_lines(1,2) [OF b a, unfolded s']
      delete_break_lines(3) [OF b a, unfolded d']
    show ?thesis
      unfolding h r old by (simp add: new nth_append)
  qed
qed

theorem backspace_deletes_before_cursor_witness:
  "wf_screen \<lparr>doc = map Ch ''he'', pos = 2\<rparr>
   \<and> 0 < cursor_col \<lparr>doc = map Ch ''he'', pos = 2\<rparr>
   \<and> handle_output [BS] \<lparr>doc = map Ch ''he'', pos = 2\<rparr> = Some (Inr \<lparr>doc = map Ch ''h'', pos = 1\<rparr>)
   \<and> doc_lines (doc (deletePreviousChar \<lparr>doc = map Ch ''he'', pos = 2\<rparr>)) = [''h'']
   \<and> cursor_col (deletePreviousChar \<lparr>doc = map Ch ''he'', pos = 2\<rparr>) = 1
   \<and> wf_screen \<lparr>doc = map Ch ''ab'' @ ParSep # map Ch ''cd'', pos = 3\<rparr>
   \<and> cursor_col \<lparr>doc = map Ch ''ab'' @ ParSep # map Ch ''cd'', pos = 3\<rparr> = 0
   \<and> 0 < cursor_line \<lparr>doc = map Ch ''ab'' @ ParSep # map Ch ''cd'', pos = 3\<rparr>
   \<and> handle_output [DEL] \<lparr>doc = map Ch ''ab'' @ ParSep # map Ch ''cd'', pos = 3\<rparr>
       = Some (Inr \<lparr>doc = map Ch ''abcd'', pos = 2\<rparr>)
   \<and> doc_lines (doc (deletePreviousChar \<lparr>doc = map Ch ''ab'' @ ParSep # map Ch ''cd'', pos = 3\<rparr>))
       = [''abcd'']
   \<and> cursor_col (deletePreviousChar \<lparr>doc = map Ch ''ab'' @ ParSep # map Ch ''cd'', pos = 3\<rparr>) = 2
   \<and> wf_screen \<lparr>doc = map Ch ''he'', pos = 0\<rparr>
   \<and> handle_output [BS] \<lparr>doc = map Ch ''he'', pos = 0\<rparr> = Some (Inr \<lparr>doc = map Ch ''he'', pos = 0\<rparr>)"
  using backspace_deletes_before_cursor [of "\<lparr>doc = map Ch ''he'', pos = 2\<rparr>" BS]
    backspace_deletes_before_cursor [of "\<lparr>doc = map Ch ''ab'' @ ParSep # map Ch ''cd'', pos = 3\<rparr>" DEL]
    backspace_deletes_before_cursor [of "\<lparr>doc = map Ch ''he'', pos = 0\<rparr>" BS]
  by (simp add: wf_screen_def cursor_col_def cursor_line_def block_start_def deletePreviousChar_def)

text \<open>
  The claim as written says that at column 0 of any line the buffer is unchanged.  With
  the lines \<open>ab\<close> and \<open>cd\<close> and the cursor at column 0 of the second line, a backspace
  changes the document: the two lines become the one line \<open>abcd\<close>.
\<close>

theorem backspace_at_column_0_counterexample:
  "cursor_col \<lparr>doc = map Ch ''ab'' @ ParSep # map Ch ''cd'', pos = 3\<rparr> = 0
   \<and> cursor_line \<lparr>doc = map Ch ''ab'' @ ParSep # map Ch ''cd'', pos = 3\<rparr> = 1
   \<and> doc_lines (doc \<lparr>doc = map Ch ''ab'' @ ParSep # map Ch ''cd'', pos = 3\<rparr>) = [''ab'', ''cd'']
   \<and> handle_output [BS] \<lparr>doc = map Ch ''ab'' @ ParSep # map Ch ''cd'', pos = 3\<rparr>
       = Some (Inr \<lparr>doc = map Ch ''abcd'', pos = 2\<rparr>)
   \<and> doc_lines (map Ch ''abcd'') = [''abcd'']
   \<and> map Ch ''abcd'' \<noteq> doc \<lparr>doc = map Ch ''ab'' @ ParSep # map Ch ''cd'', pos = 3\<rparr>"
  by (simp add: handle_output_def ctrl_defs deletePreviousChar_def cursor_col_def cursor_line_def
      block_start_def)

section \<open>The command buffer\<close>

lemma list_all_butlast: "list_all P xs \<Longrightarrow> list_all P (butlast xs)"
  by (auto simp: list_all_iff dest: in_set_butlastD)

lemma record_command_buffer: "input_buffer (record_command command t) = input_buffer t"
  by (simp add: record_command_def)

lemma os_write_buffer: "input_buffer (os_write bytes t) = input_buffer t"
  by (simp add: os_write_def)

text \<open>
  Claim C4, as the code has it.  Nothing filters what enters the command buffer.  What
  each branch of \<open>keyPressEvent\<close> leaves in it: the copy key sequence (Ctrl-C) empties it
  when nothing is selected and leaves it alone when it copies a selection; a paste
  appends the clipboard text verbatim; Enter and Return empty it; backspace removes its
  last character; the other special keys leave it alone; every other key appends the
  text of the event.  So the buffer is free of control characters after an operation
  whenever it was before and the text that the operation appends, the clipboard for a
  paste and the text of the event for a key of the last kind, contains none; nothing is
  asked of the text of the events that append nothing.
\<close>

theorem command_buffer_after_key:
  "input_buffer (keyPressEvent event t) =
     (if matches_Copy event then (if selection t \<noteq> [] then input_buffer t else [])
      else if matches_Paste event then input_buffer t @ clipboard t
      else if key event = Key_Return \<or> key event = Key_Enter then []
      else if key event = Key_Backspace then butlast (input_buffer t)
      else if special_mappings (key event) \<noteq> None then input_buffer t
      else input_buffer t @ key_text event)
   \<and> (list_all (\<lambda>c. \<not> is_control c) (input_buffer t)
        \<and> (\<not> matches_Copy event \<and> matches_Paste event
             \<longrightarrow> list_all (\<lambda>c. \<not> is_control c) (clipboard t))
        \<and> (\<not> matches_Copy event \<and> \<not> matches_Paste event
             \<and> key event \<noteq> Key_Return \<and> key event \<noteq> Key_Enter \<and> key event \<noteq> Key_Backspace
             \<and> special_mappings (key event) = None
             \<longrightarrow> list_all (\<lambda>c. \<not> is_control c) (key_text event))
      \<longrightarrow> list_all (\<lambda>c. \<not> is_control c) (input_buffer (keyPressEvent event t)))"
proof -
  have e: "input_buffer (keyPressEvent event t) =
     (if matches_Copy event then (if selection t \<noteq> [] then input_buffer t else [])
      else if matches_Paste event then input_buffer t @ clipboard t
      else if key event = Key_Return \<or> key event = Key_Enter then []
      else if key event = Key_Backspace then butlast (input_buffer t)
      else if special_mappings (key event) \<noteq> None then input_buffer t
      else input_buffer t @ key_text event)"
    by (auto simp: keyPressEvent_def os_write_buffer record_command_buffer
        split: option.splits)
  show ?thesis
    unfolding e by (auto simp: list_all_butlast)
qed

theorem command_buffer_after_key_witness:
  "list_all (\<lambda>c. \<not> is_control c) ''l''
   \<and> list_all (\<lambda>c. \<not> is_control c) ''s''
   \<and> list_all (\<lambda>c. \<not> is_control c) ''pwd''
   \<and> special_mappings Key_Other = None
   \<and> input_buffer (keyPressEvent
         \<lparr>matches_Copy = False, matches_Paste = False, key = Key_Other, key_text = ''s''\<rparr>
         \<lparr>input_buffer = ''l'', written = [], executed = [], clipboard = [LF], selection = []\<rparr>)
       = ''ls''
   \<and> list_all (\<lambda>c. \<not> is_control c)
        (input_buffer (keyPressEvent
           \<lparr>matches_Copy = False, matches_Paste = False, key = Key_Other, key_text = ''s''\<rparr>
           \<lparr>input_buffer = ''l'', written = [], executed = [], clipboard = [LF], selection = []\<rparr>))
   \<and> input_buffer (keyPressEvent
         \<lparr>matches_Copy = False, matches_Paste = True, key = Key_Other, key_text = [CHR 0x16]\<rparr>
         \<lparr>input_buffer = ''l'', written = [], executed = [], clipboard = ''pwd'', selection = []\<rparr>)
       = ''lpwd''
   \<and> list_all (\<lambda>c. \<not> is_control c)
        (input_buffer (keyPressEvent
           \<lparr>matches_Copy = False, matches_Paste = True, key = Key_Other, key_text = [CHR 0x16]\<rparr>
           \<lparr>input_buffer = ''l'', written = [], executed = [], clipboard = ''pwd'', selection = []\<rparr>))
   \<and> input_buffer (keyPressEvent
         \<lparr>matches_Copy = False, matches_Paste = False, key = Key_Return, key_text = [CR]\<rparr>
         \<lparr>input_buffer = ''l'', written = [], executed = [], clipboard = [LF], selection = []\<rparr>)
       = []
   \<and> input_buffer (keyPressEvent
         \<lparr>matches_Copy = False, matches_Paste = False, key = Key_Backspace, key_text = [BS]\<rparr>
         \<lparr>input_buffer = ''ls'', written = [], executed = [], clipboard = [LF], selection = []\<rparr>)
       = ''l''
   \<and> input_buffer (keyPressEvent
         \<lparr>matches_Copy = True, matches_Paste = False, key = Key_Other, key_text = [CHR 0x03]\<rparr>
         \<lparr>input_buffer = ''ls'', written = [], executed = [], clipboard = [LF], selection = []\<rparr>)
       = []"
  using command_buffer_after_key
    [of "\<lparr>matches_Copy = False, matches_Paste = False, key = Key_Other, key_text = ''s''\<rparr>"
        "\<lparr>input_buffer = ''l'', written = [], executed = [], clipboard = [LF], selection = []\<rparr>"]
    command_buffer_after_key
    [of "\<lparr>matches_Copy = False, matches_Paste = True, key = Key_Other, key_text = [CHR 0x16]\<rparr>"
        "\<lparr>input_buffer = ''l'', written = [], executed = [], clipboard = ''pwd'', selection = []\<rparr>"]
    command_buffer_after_key
    [of "\<lparr>matches_Copy = False, matches_Paste = False, key = Key_Return, key_text = [CR]\<rparr>"
        "\<lparr>input_buffer = ''l'', written = [], executed = [], clipboard = [LF], selection = []\<rparr>"]
    command_buffer_after_key
    [of "\<lparr>matches_Copy = False, matches_Paste = False, key = Key_Backspace, key_text = [BS]\<rparr>"
        "\<lparr>input_buffer = ''ls'', written = [], executed = [], clipboard = [LF], selection = []\<rparr>"]
    command_buffer_after_key
    [of "\<lparr>matches_Copy = True, matches_Paste = False, key = Key_Other, key_text = [CHR 0x03]\<rparr>"
        "\<lparr>input_buffer = ''ls'', written = [], executed = [], clipboard = [LF], selection = []\<rparr>"]
  by (simp add: is_control_def)

text \<open>
  The claim as written fails on a paste: with the clipboard text \<open>ls\<close> followed by a
  newline, the buffer, empty before, holds the newline afterwards.
\<close>

theorem command_buffer_paste_counterexample:
  "input_buffer (keyPressEvent
      \<lparr>matches_Copy = False, matches_Paste = True, key = Key_Other, key_text = ''v''\<rparr>
      \<lparr>input_buffer = [], written = [], executed = [], clipboard = ''ls'' @ [LF], selection = []\<rparr>)
     = ''ls'' @ [LF]
   \<and> is_control LF
   \<and> \<not> list_all (\<lambda>c. \<not> is_control c)
        (input_buffer (keyPressEvent
           \<lparr>matches_Copy = False, matches_Paste = True, key = Key_Other, key_text = ''v''\<rparr>
           \<lparr>input_buffer = [], written = [], executed = [], clipboard = ''ls'' @ [LF], selection = []\<rparr>))"
  by (simp add: keyPressEvent_def os_write_def is_control_def LF_def)

section \<open>A column that does not fit a C integer\<close>

lemma cursor_target_huge: "cursor_target ''1;99999999999999999999'' = Inr (1, 99999999999999999999)"
  by (simp add: cursor_target_def py_int_def int_space_def isdigit_def)

lemma blockCount_bounds: "1 \<le> blockCount d \<and> blockCount d \<le> 2147483647"
  by (simp add: blockCount_def)

lemma extend_blocks_1: "extend_blocks d 1 = Some d"
  using blockCount_bounds [of d] by (simp add: extend_blocks.simps [of d])

text \<open>
  Claim C8 asks that no fragment makes the interpreter raise.  The two numbers of
  \<open>ESC [ row ; col H\<close> are bounded below by 1 but not above, and \<open>col - 1\<close> is handed to
  \<open>movePosition\<close>: on any screen, the sequence with column 99999999999999999999 ends in
  \<open>OverflowError\<close>, which the \<open>except ValueError\<close> around the two \<open>int()\<close> calls does not
  catch.
\<close>

theorem cursor_position_raises_overflow:
  "handle_output (ESC # ''[1;99999999999999999999H'') s = Some (Inl OverflowError)"
proof -
  have "cursor_position ''1;99999999999999999999'' s = Some (Inl OverflowError)"
    by (simp add: cursor_position_def cursor_target_huge c_int_def extend_blocks_1)
  then show ?thesis
    by (simp add: handle_output_def ctrl_defs isalpha_def csi_dispatch_def)
qed

section \<open>Fragments of the stream\<close>

subsection \<open>One iteration of the interpreter's loop\<close>

lemma handle_loop_erase_unit:
  assumes "char = BS \<or> char = DEL"
    and "2 \<le> length rest \<and> rest ! 0 = CHR '' '' \<and> (rest ! 1 = BS \<or> rest ! 1 = DEL)"
  shows "handle_loop (char # rest) cur
           = handle_loop (drop 2 rest) (if pos cur > 0 then deletePreviousChar cur else cur)"
proof -
  have "char \<noteq> CR" "char \<noteq> LF"
    using assms(1) by (auto simp: ctrl_defs)
  then show ?thesis
    using assms by simp
qed

lemma handle_loop_backspace:
  assumes "char = BS \<or> char = DEL"
    and "\<not> (2 \<le> length rest \<and> rest ! 0 = CHR '' '' \<and> (rest ! 1 = BS \<or> rest ! 1 = DEL))"
  shows "handle_loop (char # rest) cur
           = handle_loop rest (if pos cur > 0 then deletePreviousChar cur else cur)"
proof -
  have "char \<noteq> CR" "char \<noteq> LF"
    using assms(1) by (auto simp: ctrl_defs)
  then show ?thesis
    using assms by auto
qed

lemma ESC_distinct: "ESC \<noteq> CR" "ESC \<noteq> LF" "ESC \<noteq> BS" "ESC \<noteq> DEL" "ESC \<noteq> BEL"
  by (simp_all add: ctrl_defs)

lemma handle_loop_csi:
  assumes "dropWhile (\<lambda>c. \<not> isalpha c) rest1 = command # rest2"
  shows "handle_loop (ESC # CHR ''['' # rest1) cur
           = (case csi_dispatch command (takeWhile (\<lambda>c. \<not> isalpha c) rest1) cur of
                None \<Rightarrow> None
              | Some (Inl e) \<Rightarrow> Some (Inl e)
              | Some (Inr cur') \<Rightarrow> handle_loop rest2 cur')"
  by (simp add: ESC_distinct assms)

lemma handle_loop_csi_cut:
  assumes "dropWhile (\<lambda>c. \<not> isalpha c) rest1 = []"
  shows "handle_loop (ESC # CHR ''['' # rest1) cur = Some (Inr cur)"
  by (simp add: ESC_distinct assms)

lemma handle_loop_osc:
  "handle_loop (ESC # CHR '']'' # rest1) cur = handle_loop (skip_osc rest1) cur"
  by (simp add: ESC_distinct)

lemma handle_loop_esc_other:
  assumes "next_char \<noteq> CHR ''[''" and "next_char \<noteq> CHR '']''"
  shows "handle_loop (ESC # next_char # rest1) cur = handle_loop rest1 cur"
  using assms by (simp add: ESC_distinct)

lemma handle_loop_plain:
  assumes "char \<noteq> BS" and "char \<noteq> DEL" and "char \<noteq> ESC"
  shows "handle_loop (char # rest) cur
           = handle_loop rest
               (if char = CR then cursor_to_line_start cur
                else if char = LF then insertBlock (cursor_to_line_end cur)
                else if char = BEL then cur
                else write_char char cur)"
  using assms by simp


subsection \<open>The interpreter across a boundary\<close>

lemma find_osc_terminator_Nil: "find_osc_terminator cs \<noteq> None \<Longrightarrow> cs \<noteq> []"
  by (cases cs) simp_all

lemma skip_osc_append:
  "find_osc_terminator xs \<noteq> None \<Longrightarrow> skip_osc (xs @ ys) = skip_osc xs @ ys"
proof (induction xs)
  case Nil
  then show ?case by simp
next
  case (Cons c cs)
  show ?case
  proof (cases "c = BEL \<or> (c = ESC \<and> cs \<noteq> [] \<and> hd cs = CHR 0x5C)")
    case True
    then show ?thesis by (cases cs) auto
  next
    case False
    then have "find_osc_terminator (c # cs)
                 = map_option (\<lambda>(i, n). (Suc i, n)) (find_osc_terminator cs)"
      by auto
    with Cons.prems have t: "find_osc_terminator cs \<noteq> None"
      by (cases "find_osc_terminator cs") simp_all
    then have ne: "cs \<noteq> []"
      by (rule find_osc_terminator_Nil)
    have "skip_osc ((c # cs) @ ys) = skip_osc (cs @ ys)"
      using False ne by (cases cs) auto
    moreover have "skip_osc (c # cs) = skip_osc cs"
      using False by auto
    ultimately show ?thesis
      using Cons.IH [OF t] by simp
  qed
qed

lemma lookahead_append:
  assumes "2 \<le> length rest"
  shows "(2 \<le> length (rest @ ys) \<and> (rest @ ys) ! 0 = CHR '' ''
            \<and> ((rest @ ys) ! 1 = BS \<or> (rest @ ys) ! 1 = DEL))
           = (2 \<le> length rest \<and> rest ! 0 = CHR '' '' \<and> (rest ! 1 = BS \<or> rest ! 1 = DEL))"
proof -
  obtain a b r where "rest = a # b # r"
    using assms by (cases rest; cases "tl rest") auto
  then show ?thesis by simp
qed

lemma lookahead_short:
  assumes "rest \<noteq> []" and "rest \<noteq> '' ''" and "\<not> 2 \<le> length rest"
  shows "\<not> (2 \<le> length (rest @ ys) \<and> (rest @ ys) ! 0 = CHR '' ''
            \<and> ((rest @ ys) ! 1 = BS \<or> (rest @ ys) ! 1 = DEL))"
proof -
  obtain c where "rest = [c]"
    using assms(1,3) by (cases rest) (auto simp: Suc_le_eq)
  with assms(2) show ?thesis by simp
qed

lemma result_case_step:
  assumes "\<And>c. f c = (case g c of
                        None \<Rightarrow> None
                      | Some (Inl e) \<Rightarrow> Some (Inl e)
                      | Some (Inr c') \<Rightarrow> h c')"
  shows "(case r of None \<Rightarrow> None | Some (Inl e) \<Rightarrow> Some (Inl e) | Some (Inr c) \<Rightarrow> f c)
           = (case (case r of
                      None \<Rightarrow> None
                    | Some (Inl e) \<Rightarrow> Some (Inl e)
                    | Some (Inr c) \<Rightarrow> g c) of
                None \<Rightarrow> None
              | Some (Inl e) \<Rightarrow> Some (Inl e)
              | Some (Inr c') \<Rightarrow> h c')"
proof (cases r)
  case None
  then show ?thesis by simp
next
  case (Some x)
  then show ?thesis by (cases x) (simp_all add: assms)
qed

lemma handle_loop_append:
  "between_sequences xs \<Longrightarrow>
     handle_loop (xs @ ys) cur
       = (case handle_loop xs cur of
            None \<Rightarrow> None
          | Some (Inl e) \<Rightarrow> Some (Inl e)
          | Some (Inr cur') \<Rightarrow> handle_loop ys cur')"
proof (induction xs arbitrary: cur rule: between_sequences.induct)
  case 1
  then show ?case by simp
next
  case (2 char rest)
  let ?look = "2 \<le> length rest \<and> rest ! 0 = CHR '' '' \<and> (rest ! 1 = BS \<or> rest ! 1 = DEL)"
  let ?look' = "2 \<le> length (rest @ ys) \<and> (rest @ ys) ! 0 = CHR '' ''
                  \<and> ((rest @ ys) ! 1 = BS \<or> (rest @ ys) ! 1 = DEL)"
  let ?del = "if pos cur > 0 then deletePreviousChar cur else cur"
  consider (bs) "char = BS \<or> char = DEL" | (esc) "char = ESC" "\<not> (char = BS \<or> char = DEL)"
    | (other) "\<not> (char = BS \<or> char = DEL)" "char \<noteq> ESC"
    by blast
  then show ?case
  proof cases
    case bs
    show ?thesis
    proof (cases ?look)
      case True
      then have l: "?look'"
        using lookahead_append [of rest ys] by simp
      from True bs "2.prems" have b: "between_sequences (drop 2 rest)"
        by simp
      have d: "drop 2 (rest @ ys) = drop 2 rest @ ys"
        using True by simp
      have L: "handle_loop (char # rest @ ys) cur = handle_loop (drop 2 rest @ ys) ?del"
        using handle_loop_erase_unit [OF bs l, of cur] by (simp only: d)
      have R: "handle_loop (char # rest) cur = handle_loop (drop 2 rest) ?del"
        by (rule handle_loop_erase_unit [OF bs True])
      show ?thesis
        unfolding append_Cons L R by (rule "2.IH"(1) [OF bs True b])
    next
      case False
      from False bs "2.prems" have b: "rest \<noteq> []" "rest \<noteq> '' ''" "between_sequences rest"
        by simp_all
      have l: "\<not> ?look'"
      proof (cases "2 \<le> length rest")
        case True
        then show ?thesis using False lookahead_append [of rest ys] by simp
      next
        case False
        then show ?thesis using lookahead_short [OF b(1,2)] by simp
      qed
      have L: "handle_loop (char # rest @ ys) cur = handle_loop (rest @ ys) ?del"
        by (rule handle_loop_backspace [OF bs l])
      have R: "handle_loop (char # rest) cur = handle_loop rest ?del"
        by (rule handle_loop_backspace [OF bs False])
      show ?thesis
        unfolding append_Cons L R by (rule "2.IH"(2) [OF bs False b(3)])
    qed
  next
    case esc
    from esc "2.prems" obtain next_char rest1 where r: "rest = next_char # rest1"
      by (cases rest) auto
    show ?thesis
    proof (cases "next_char = CHR ''[''")
      case True
      from esc r True "2.prems" obtain command rest2 where
        dw: "dropWhile (\<lambda>c. \<not> isalpha c) rest1 = command # rest2"
        and b: "between_sequences rest2"
        by (cases "dropWhile (\<lambda>c. \<not> isalpha c) rest1") (auto simp: ESC_distinct)
      have m1: "command \<in> set rest1"
        using set_dropWhileD [of command "\<lambda>c. \<not> isalpha c" rest1] dw by simp
      have m2: "\<not> \<not> isalpha command"
        using hd_dropWhile [of "\<lambda>c. \<not> isalpha c" rest1] dw by simp
      have dw': "dropWhile (\<lambda>c. \<not> isalpha c) (rest1 @ ys) = command # rest2 @ ys"
        using dropWhile_append1 [of command rest1 "\<lambda>c. \<not> isalpha c" ys] m1 m2 dw by simp
      have tw': "takeWhile (\<lambda>c. \<not> isalpha c) (rest1 @ ys) = takeWhile (\<lambda>c. \<not> isalpha c) rest1"
        using takeWhile_append1 [of command rest1 "\<lambda>c. \<not> isalpha c" ys] m1 m2 by simp
      have L: "handle_loop (ESC # CHR ''['' # rest1 @ ys) cur
                 = (case csi_dispatch command (takeWhile (\<lambda>c. \<not> isalpha c) rest1) cur of
                      None \<Rightarrow> None
                    | Some (Inl e) \<Rightarrow> Some (Inl e)
                    | Some (Inr cur') \<Rightarrow> handle_loop (rest2 @ ys) cur')"
        using handle_loop_csi [OF dw', of cur] by (simp only: tw')
      have R: "handle_loop (ESC # CHR ''['' # rest1) cur
                 = (case csi_dispatch command (takeWhile (\<lambda>c. \<not> isalpha c) rest1) cur of
                      None \<Rightarrow> None
                    | Some (Inl e) \<Rightarrow> Some (Inl e)
                    | Some (Inr cur') \<Rightarrow> handle_loop rest2 cur')"
        by (rule handle_loop_csi [OF dw])
      note ih = "2.IH"(3) [OF esc(2,1) r True dw b]
      show ?thesis
        unfolding esc(1) r True append_Cons L R
        by (rule result_case_step) (rule ih)
    next
      case False
      note nb = False
      show ?thesis
      proof (cases "next_char = CHR '']''")
        case True
        from esc r True nb "2.prems" have t: "find_osc_terminator rest1 \<noteq> None"
          and b: "between_sequences (skip_osc rest1)"
          by (auto simp: ESC_distinct)
        note ih = "2.IH"(4) [OF esc(2,1) r nb True b]
        show ?thesis
          unfolding esc(1) r True append_Cons handle_loop_osc skip_osc_append [OF t]
          by (rule ih)
      next
        case False
        from esc r False nb "2.prems" have b: "between_sequences rest1"
          by (auto simp: ESC_distinct)
        note ih = "2.IH"(5) [OF esc(2,1) r nb False b]
        show ?thesis
          unfolding esc(1) r append_Cons handle_loop_esc_other [OF nb False]
          by (rule ih)
      qed
    qed
  next
    case other
    have n: "char \<noteq> BS" "char \<noteq> DEL"
      using other(1) by simp_all
    from other "2.prems" have b: "between_sequences rest"
      by simp
    note ih = "2.IH"(6) [OF other b]
    show ?thesis
      unfolding append_Cons handle_loop_plain [OF n other(2)] by (rule ih)
  qed
qed

subsection \<open>The extractor across a boundary\<close>

lemma take_whole_length: "take (length sub) zs = sub \<Longrightarrow> length sub \<le> length zs"
  by (metis length_take min.cobounded1)

lemma take_append_short:
  assumes "\<not> length sub \<le> length zs" and "take (length sub) (zs @ ys) = sub"
  shows "take (length zs) sub = zs"
proof -
  have m: "min (length zs) (length sub) = length zs"
    using assms(1) by simp
  have "take (length zs) sub = take (length zs) (take (length sub) (zs @ ys))"
    by (simp only: assms(2))
  also have "\<dots> = take (min (length zs) (length sub)) (zs @ ys)"
    by (rule take_take)
  also have "\<dots> = zs"
    by (simp only: m) simp
  finally show ?thesis .
qed

lemma find_step:
  "find sub (c # cs)
     = (if take (length sub) (c # cs) = sub then Some 0 else map_option Suc (find sub cs))"
  by simp

lemma find_bound: "find sub xs = Some k \<Longrightarrow> k + length sub \<le> length xs"
proof (induction xs arbitrary: k)
  case Nil
  then show ?case by (simp split: if_splits)
next
  case (Cons c cs)
  show ?case
  proof (cases "take (length sub) (c # cs) = sub")
    case True
    then have "k = 0"
      using Cons.prems by simp
    then show ?thesis
      using take_whole_length [OF True] by simp
  next
    case False
    then have "map_option Suc (find sub cs) = Some k"
      using Cons.prems by (simp only: find_step if_False)
    then obtain j where "find sub cs = Some j" "k = Suc j"
      by auto
    with Cons.IH show ?thesis by fastforce
  qed
qed

lemma find_append_Some: "find sub xs = Some k \<Longrightarrow> find sub (xs @ ys) = Some k"
proof (induction xs arbitrary: k)
  case Nil
  then show ?case by (cases ys) (simp_all split: if_splits)
next
  case (Cons c cs)
  have l: "length sub \<le> length (c # cs)"
    using find_bound [OF Cons.prems] by simp
  have t: "take (length sub) (c # cs @ ys) = take (length sub) (c # cs)"
    using l take_append [of "length sub" "c # cs" ys] by simp
  show ?case
  proof (cases "take (length sub) (c # cs) = sub")
    case True
    then have "k = 0"
      using Cons.prems by simp
    then show ?thesis
      using True by (simp only: append_Cons find_step t) simp
  next
    case False
    then have "map_option Suc (find sub cs) = Some k"
      using Cons.prems by (simp only: find_step if_False)
    then obtain j where j: "find sub cs = Some j" "k = Suc j"
      by auto
    show ?thesis
      using False Cons.IH [OF j(1)] j(2)
      by (simp only: append_Cons find_step t if_False option.map)
  qed
qed

lemma find_append_None:
  "find sub xs = None \<Longrightarrow> \<not> partial_at_end sub xs \<Longrightarrow>
     find sub (xs @ ys) = map_option (\<lambda>k. length xs + k) (find sub ys)"
proof (induction xs)
  case Nil
  then show ?case by (simp add: option.map_ident)
next
  case (Cons c cs)
  have n: "take (length sub) (c # cs) \<noteq> sub"
    using Cons.prems(1) by (auto simp only: find_step split: if_splits)
  then have f: "find sub cs = None"
    using Cons.prems(1) by (simp only: find_step if_False map_option_is_None)
  from Cons.prems(2) have p: "\<not> (length (c # cs) < length sub \<and> take (length (c # cs)) sub = c # cs)"
    and q: "\<not> partial_at_end sub cs"
    by simp_all
  have m: "take (length sub) (c # cs @ ys) \<noteq> sub"
  proof (cases "length sub \<le> length (c # cs)")
    case True
    then have "take (length sub) (c # cs @ ys) = take (length sub) (c # cs)"
      using take_append [of "length sub" "c # cs" ys] by simp
    with n show ?thesis by simp
  next
    case False
    show ?thesis
    proof
      assume e: "take (length sub) (c # cs @ ys) = sub"
      then have "take (length sub) ((c # cs) @ ys) = sub"
        by simp
      from take_append_short [OF False this] p False show False
        by simp
    qed
  qed
  have "find sub ((c # cs) @ ys) = map_option Suc (find sub (cs @ ys))"
    using m by (simp only: append_Cons find_step if_False)
  also have "\<dots> = map_option Suc (map_option (\<lambda>k. length cs + k) (find sub ys))"
    using Cons.IH [OF f q] by simp
  also have "\<dots> = map_option (\<lambda>k. length (c # cs) + k) (find sub ys)"
    by (cases "find sub ys") simp_all
  finally show ?case .
qed

lemma find_osc_terminator_step:
  "\<not> (c = BEL \<or> (c = ESC \<and> cs \<noteq> [] \<and> hd cs = CHR 0x5C)) \<Longrightarrow>
     find_osc_terminator (c # cs) = map_option (\<lambda>(i, n). (Suc i, n)) (find_osc_terminator cs)"
  by auto

lemma find_osc_terminator_append:
  "find_osc_terminator xs = Some r \<Longrightarrow> find_osc_terminator (xs @ ys) = Some r"
proof (induction xs arbitrary: r)
  case Nil
  then show ?case by simp
next
  case (Cons c cs)
  show ?case
  proof (cases "c = BEL")
    case True
    with Cons.prems show ?thesis by simp
  next
    case False
    note nb = False
    show ?thesis
    proof (cases "c = ESC \<and> cs \<noteq> [] \<and> hd cs = CHR 0x5C")
      case True
      then have "cs @ ys \<noteq> []" "hd (cs @ ys) = CHR 0x5C"
        by simp_all
      with True nb Cons.prems show ?thesis by simp
    next
      case False
      with nb have s: "\<not> (c = BEL \<or> (c = ESC \<and> cs \<noteq> [] \<and> hd cs = CHR 0x5C))"
        by simp
      from Cons.prems obtain r' where r': "find_osc_terminator cs = Some r'"
        unfolding find_osc_terminator_step [OF s] by (cases "find_osc_terminator cs") simp_all
      then have ne: "cs \<noteq> []"
        using find_osc_terminator_Nil [of cs] by simp
      have s': "\<not> (c = BEL \<or> (c = ESC \<and> cs @ ys \<noteq> [] \<and> hd (cs @ ys) = CHR 0x5C))"
        using s ne by simp
      show ?thesis
        using Cons.prems Cons.IH [OF r'] r'
        unfolding append_Cons find_osc_terminator_step [OF s] find_osc_terminator_step [OF s']
        by simp
    qed
  qed
qed

lemma find_osc_terminator_end:
  "find_osc_terminator cs = Some (e, n) \<Longrightarrow> e + n \<le> length cs"
proof (induction cs arbitrary: e)
  case Nil
  then show ?case by simp
next
  case (Cons c cs)
  show ?case
  proof (cases "c = BEL")
    case True
    with Cons.prems show ?thesis by simp
  next
    case False
    note nb = False
    show ?thesis
    proof (cases "c = ESC \<and> cs \<noteq> [] \<and> hd cs = CHR 0x5C")
      case True
      then have "2 \<le> length (c # cs)"
        by (cases cs) simp_all
      with True nb Cons.prems show ?thesis by simp
    next
      case False
      with nb have s: "\<not> (c = BEL \<or> (c = ESC \<and> cs \<noteq> [] \<and> hd cs = CHR 0x5C))"
        by simp
      from Cons.prems obtain e' where "find_osc_terminator cs = Some (e', n)" "e = Suc e'"
        unfolding find_osc_terminator_step [OF s] by (cases "find_osc_terminator cs") auto
      with Cons.IH show ?thesis by fastforce
    qed
  qed
qed

lemma OSC_DIR_PREFIX_nonempty: "OSC_DIR_PREFIX \<noteq> []"
  by (simp add: OSC_DIR_PREFIX_def)

lemma extract_loop_None: "find OSC_DIR_PREFIX str = None \<Longrightarrow> extract_loop str = []"
  by (simp add: extract_loop.simps [of str])

lemma extract_loop_open:
  "find OSC_DIR_PREFIX str = Some k \<Longrightarrow>
     find_osc_terminator (drop (k + length OSC_DIR_PREFIX) str) = None \<Longrightarrow>
     extract_loop str = []"
  by (simp add: extract_loop.simps [of str])

lemma extract_loop_report:
  "find OSC_DIR_PREFIX str = Some k \<Longrightarrow>
     find_osc_terminator (drop (k + length OSC_DIR_PREFIX) str) = Some (e, n) \<Longrightarrow>
     extract_loop str
       = take e (drop (k + length OSC_DIR_PREFIX) str)
           # extract_loop (drop (e + n) (drop (k + length OSC_DIR_PREFIX) str))"
  by (simp add: extract_loop.simps [of str])

lemma extract_loop_append:
  "between_reports xs \<Longrightarrow> extract_loop (xs @ ys) = extract_loop xs @ extract_loop ys"
proof (induction xs rule: between_reports.induct)
  case (1 str)
  let ?m = "length OSC_DIR_PREFIX"
  show ?case
  proof (cases "find OSC_DIR_PREFIX str")
    case None
    with "1.prems" have p: "\<not> partial_at_end OSC_DIR_PREFIX str"
      by (simp add: between_reports.simps [of str])
    have f: "find OSC_DIR_PREFIX (str @ ys)
               = map_option (\<lambda>k. length str + k) (find OSC_DIR_PREFIX ys)"
      by (rule find_append_None [OF None p])
    have "extract_loop (str @ ys) = extract_loop ys"
    proof (cases "find OSC_DIR_PREFIX ys")
      case None
      with f show ?thesis by (simp add: extract_loop_None)
    next
      case (Some j)
      with f have g: "find OSC_DIR_PREFIX (str @ ys) = Some (length str + j)"
        by simp
      have d: "drop (length str + j + ?m) (str @ ys) = drop (j + ?m) ys"
        by simp
      show ?thesis
      proof (cases "find_osc_terminator (drop (j + ?m) ys)")
        case None
        then have "find_osc_terminator (drop (length str + j + ?m) (str @ ys)) = None"
          by (simp only: d)
        then show ?thesis
          by (simp only: extract_loop_open [OF g] extract_loop_open [OF Some None])
      next
        case (Some r)
        obtain e n where r: "r = (e, n)"
          by (cases r)
        have u: "find_osc_terminator (drop (j + ?m) ys) = Some (e, n)"
          using Some r by simp
        then have v: "find_osc_terminator (drop (length str + j + ?m) (str @ ys)) = Some (e, n)"
          by (simp only: d)
        show ?thesis
          by (simp only: extract_loop_report [OF g v] extract_loop_report [OF \<open>find OSC_DIR_PREFIX ys = Some j\<close> u] d)
      qed
    qed
    then show ?thesis
      by (simp add: extract_loop_None [OF None])
  next
    case (Some k)
    let ?rest = "drop (k + ?m) str"
    from Some "1.prems" obtain e n where t: "find_osc_terminator ?rest = Some (e, n)"
      and b: "between_reports (drop (e + n) ?rest)"
      by (cases "find_osc_terminator ?rest") (auto simp: between_reports.simps [of str])
    have kb: "k + ?m \<le> length str"
      by (rule find_bound [OF Some])
    have eb: "e + n \<le> length ?rest"
      by (rule find_osc_terminator_end [OF t])
    have f: "find OSC_DIR_PREFIX (str @ ys) = Some k"
      by (rule find_append_Some [OF Some])
    have d: "drop (k + ?m) (str @ ys) = ?rest @ ys"
      using kb by simp
    have t': "find_osc_terminator (?rest @ ys) = Some (e, n)"
      by (rule find_osc_terminator_append [OF t])
    have tk: "take e (?rest @ ys) = take e ?rest"
      using eb by simp
    have dr: "drop (e + n) (?rest @ ys) = drop (e + n) ?rest @ ys"
      using eb by simp
    have L: "extract_loop (str @ ys)
               = take e ?rest # extract_loop (drop (e + n) ?rest @ ys)"
      using extract_loop_report [OF f, of e n] t' by (simp only: d tk dr)
    have R: "extract_loop str = take e ?rest # extract_loop (drop (e + n) ?rest)"
      by (rule extract_loop_report [OF Some t])
    show ?thesis
      unfolding L R using "1.IH" [OF Some t refl b] by simp
  qed
qed

subsection \<open>The tab across a boundary\<close>

lemma handle_output_Nil: "handle_output [] s = Some (Inr s)"
  by (simp add: handle_output_def)

lemma extract_directories_Nil: "extract_directories [] = []"
  by (simp add: extract_directories_def extract_loop.simps [of "[]"])

lemma handle_output_append:
  "between_sequences xs \<Longrightarrow>
     handle_output (xs @ ys) s
       = (case handle_output xs s of
            None \<Rightarrow> None
          | Some (Inl e) \<Rightarrow> Some (Inl e)
          | Some (Inr s') \<Rightarrow> handle_output ys s')"
  unfolding handle_output_def by (rule handle_loop_append)

lemma extract_directories_append:
  "between_reports xs \<Longrightarrow>
     extract_directories (xs @ ys) = extract_directories xs @ extract_directories ys"
  unfolding extract_directories_def by (rule extract_loop_append)

lemma feed_stops:
  assumes "handle_output f s = r" and "\<forall>s'. r \<noteq> Some (Inr s')"
  shows "feed (f # fs) s = (r, [])"
proof (cases r)
  case None
  with assms(1) show ?thesis by (simp add: tab_handle_output_def)
next
  case (Some x)
  with assms show ?thesis by (cases x) (simp_all add: tab_handle_output_def)
qed

lemma feed_goes_on:
  assumes "handle_output f s = Some (Inr s1)"
  shows "feed (f # fs) s = (fst (feed fs s1), extract_directories f @ snd (feed fs s1))"
  using assms by (simp add: tab_handle_output_def split: prod.splits)

text \<open>
  Claim C1, as the code has it.  Neither the interpreter nor the extractor keeps any
  parser state from one fragment to the next.  When every fragment but the last ends
  between two sequences of the interpreter and between two directory reports, feeding
  the fragments of a decoded text one at a time ends as processing the whole text in one
  fragment ends: with the same screen, with the same exception, or not at all.  When
  the whole text returns a screen, the fragments yield the same directories as the whole
  text, in the same order.
\<close>

theorem fragments_cut_between_sequences:
  assumes "list_all (\<lambda>f. between_sequences f \<and> between_reports f) (butlast fragments)"
  shows "fst (feed fragments s) = handle_output (concat fragments) s
       \<and> (handle_output (concat fragments) s = Some (Inr s')
            \<longrightarrow> feed fragments s = (Some (Inr s'), extract_directories (concat fragments)))"
  using assms
proof (induction fragments arbitrary: s)
  case Nil
  then show ?case
    by (auto simp: handle_output_Nil extract_directories_Nil)
next
  case (Cons f fs)
  show ?case
  proof (cases fs)
    case Nil
    show ?thesis
    proof (cases "\<exists>s1. handle_output f s = Some (Inr s1)")
      case True
      then obtain s1 where h: "handle_output f s = Some (Inr s1)" ..
      show ?thesis
        unfolding Nil using h by (simp add: tab_handle_output_def)
    next
      case False
      then have "feed (f # fs) s = (handle_output f s, [])"
        using feed_stops [of f s "handle_output f s" fs] by simp
      with False show ?thesis
        unfolding Nil by simp
    qed
  next
    case (Cons g gs)
    with Cons.prems have b: "between_sequences f" "between_reports f"
      and r: "list_all (\<lambda>f. between_sequences f \<and> between_reports f) (butlast fs)"
      by simp_all
    have c: "concat (f # fs) = f @ concat fs"
      by simp
    show ?thesis
    proof (cases "\<exists>s1. handle_output f s = Some (Inr s1)")
      case True
      then obtain s1 where h: "handle_output f s = Some (Inr s1)" ..
      have w: "handle_output (f @ concat fs) s = handle_output (concat fs) s1"
        using handle_output_append [OF b(1), of "concat fs" s] h by simp
      note ih = Cons.IH [OF r, of s1]
      have 1: "fst (feed (f # fs) s) = handle_output (concat (f # fs)) s"
        unfolding c w feed_goes_on [OF h] using ih by simp
      have 2: "feed (f # fs) s = (Some (Inr s'), extract_directories (concat (f # fs)))"
        if "handle_output (concat (f # fs)) s = Some (Inr s')"
      proof -
        from that have "handle_output (concat fs) s1 = Some (Inr s')"
          unfolding c w .
        with ih have "feed fs s1 = (Some (Inr s'), extract_directories (concat fs))"
          by simp
        then show ?thesis
          unfolding c feed_goes_on [OF h] extract_directories_append [OF b(2)] by simp
      qed
      from 1 2 show ?thesis by blast
    next
      case False
      then have n: "\<forall>s1. handle_output f s \<noteq> Some (Inr s1)"
        by simp
      have fd: "feed (f # fs) s = (handle_output f s, [])"
        using feed_stops [of f s "handle_output f s" fs] False by simp
      have w: "handle_output (f @ concat fs) s = handle_output f s"
      proof (cases "handle_output f s")
        case None
        then show ?thesis
          using handle_output_append [OF b(1), of "concat fs" s] by simp
      next
        case (Some x)
        with n show ?thesis
          using handle_output_append [OF b(1), of "concat fs" s] by (cases x) simp_all
      qed
      show ?thesis
        unfolding c w fd using n by simp
    qed
  qed
qed

theorem fragments_cut_between_sequences_witness:
  "list_all (\<lambda>f. between_sequences f \<and> between_reports f)
     (butlast [''ab'' @ ESC # ''[K'', ESC # '']1337;CurrentDir=/tmp/x'' @ [BEL], ''c''])
   \<and> handle_output
        (concat [''ab'' @ ESC # ''[K'', ESC # '']1337;CurrentDir=/tmp/x'' @ [BEL], ''c''])
        empty_screen
       = Some (Inr \<lparr>doc = map Ch ''abc'', pos = 3\<rparr>)
   \<and> extract_directories
        (concat [''ab'' @ ESC # ''[K'', ESC # '']1337;CurrentDir=/tmp/x'' @ [BEL], ''c''])
       = [''/tmp/x'']
   \<and> feed [''ab'' @ ESC # ''[K'', ESC # '']1337;CurrentDir=/tmp/x'' @ [BEL], ''c''] empty_screen
       = (Some (Inr \<lparr>doc = map Ch ''abc'', pos = 3\<rparr>), [''/tmp/x''])"
proof -
  have h: "list_all (\<lambda>f. between_sequences f \<and> between_reports f)
             (butlast [''ab'' @ ESC # ''[K'', ESC # '']1337;CurrentDir=/tmp/x'' @ [BEL], ''c''])"
    by code_simp
  have r: "handle_output
             (concat [''ab'' @ ESC # ''[K'', ESC # '']1337;CurrentDir=/tmp/x'' @ [BEL], ''c''])
             empty_screen
           = Some (Inr \<lparr>doc = map Ch ''abc'', pos = 3\<rparr>)"
    by code_simp
  have e: "extract_directories
             (concat [''ab'' @ ESC # ''[K'', ESC # '']1337;CurrentDir=/tmp/x'' @ [BEL], ''c''])
           = [''/tmp/x'']"
    by code_simp
  show ?thesis
    using fragments_cut_between_sequences
      [OF h, of empty_screen "\<lparr>doc = map Ch ''abc'', pos = 3\<rparr>"] h r e
    by (simp only:)
qed

text \<open>
  The claim as written covers every split.  When the stream \<open>ESC [ K\<close> is cut behind
  \<open>ESC\<close>, the second fragment is rendered as the two characters \<open>[K\<close>, while the whole
  stream erases and shows nothing.  When a directory report is cut inside its marker, the
  fragments yield no directory and show the rest of the report as text, while the whole
  stream yields \<open>/tmp/x\<close>.
\<close>

theorem fragments_cut_inside_sequence_counterexample:
  "feed [[ESC], ''[K''] empty_screen = (Some (Inr \<lparr>doc = map Ch ''[K'', pos = 2\<rparr>), [])
   \<and> tab_handle_output (concat [[ESC], ''[K'']) empty_screen
     = (Some (Inr \<lparr>doc = [], pos = 0\<rparr>), [])
   \<and> feed [''a'' @ ESC # '']1337;Curr'', ''entDir=/tmp/x'' @ BEL # ''b''] empty_screen
     = (Some (Inr \<lparr>doc = map Ch ''aentDir=/tmp/xb'', pos = 15\<rparr>), [])
   \<and> tab_handle_output (concat [''a'' @ ESC # '']1337;Curr'', ''entDir=/tmp/x'' @ BEL # ''b''])
         empty_screen
     = (Some (Inr \<lparr>doc = map Ch ''ab'', pos = 2\<rparr>), [''/tmp/x''])"
  by code_simp

text \<open>
  The directories of a text that raises.  The report of \<open>/tmp\<close> followed by a cursor
  position whose column does not fit a C integer: cut between the two sequences, the
  first fragment yields \<open>/tmp\<close> before the second raises; in one fragment the rendering
  raises before the scan for reports, and nothing is yielded.
\<close>

lemma fragments_of_a_raising_text:
  "list_all (\<lambda>f. between_sequences f \<and> between_reports f)
     (butlast [ESC # '']1337;CurrentDir=/tmp'' @ [BEL], ESC # ''[1;99999999999999999999H''])
   \<and> feed [ESC # '']1337;CurrentDir=/tmp'' @ [BEL], ESC # ''[1;99999999999999999999H'']
        empty_screen
       = (Some (Inl OverflowError), [''/tmp''])
   \<and> tab_handle_output
        (concat [ESC # '']1337;CurrentDir=/tmp'' @ [BEL], ESC # ''[1;99999999999999999999H''])
        empty_screen
       = (Some (Inl OverflowError), [])"
  by code_simp

text \<open>
  The fragments are decoded one by one.  The two bytes of \<open>U+00E9\<close> in one read give the
  character; one byte in each of two reads gives nothing.
\<close>

lemma decode_cut_inside_character:
  "decode [CHR 0xC3, CHR 0xA9] = Some [CHR 0xE9]
   \<and> decode [CHR 0xC3] = Some []
   \<and> decode [CHR 0xA9] = Some []"
  by code_simp

section \<open>What the interpreter returns\<close>

lemma wf_cursor_to_line_start: "wf_screen s \<Longrightarrow> wf_screen (cursor_to_line_start s)"
  using block_start_le [of "doc s" "pos s"] by (simp add: wf_screen_def cursor_to_line_start_def)

lemma wf_cursor_to_line_end: "wf_screen s \<Longrightarrow> wf_screen (cursor_to_line_end s)"
  using block_end_le [of "pos s" "doc s"] by (simp add: wf_screen_def cursor_to_line_end_def)

lemma wf_insertBlock: "wf_screen s \<Longrightarrow> wf_screen (insertBlock s)"
  by (simp add: wf_screen_def insertBlock_def)

lemma wf_deletePreviousChar: "wf_screen s \<Longrightarrow> wf_screen (deletePreviousChar s)"
  by (auto simp: wf_screen_def deletePreviousChar_def)

lemma wf_write_char: "wf_screen s \<Longrightarrow> wf_screen (write_char c s)"
  by (auto simp: wf_screen_def write_char_def insertText_def)

lemma wf_remove_range: "a \<le> length (doc s) \<Longrightarrow> wf_screen (remove_range a b s)"
  by (auto simp: wf_screen_def remove_range_def min_def max_def)

lemma wf_empty_screen: "wf_screen empty_screen"
  by (simp add: wf_screen_def empty_screen_def)

lemma wf_erase_line:
  assumes "wf_screen s"
  shows "wf_screen (erase_line params s)"
proof -
  have p: "pos s \<le> length (doc s)"
    using assms by (simp add: wf_screen_def)
  have q: "block_start (doc s) (pos s) \<le> length (doc s)"
    using block_start_le [of "doc s" "pos s"] p by simp
  show ?thesis
    using assms by (simp add: erase_line_def Let_def wf_remove_range [OF p] wf_remove_range [OF q])
qed

lemma wf_erase_display:
  assumes "wf_screen s"
  shows "wf_screen (erase_display params s)"
proof -
  have p: "pos s \<le> length (doc s)"
    using assms by (simp add: wf_screen_def)
  show ?thesis
    using assms by (simp add: erase_display_def Let_def wf_remove_range [OF p] wf_empty_screen)
qed

lemma py_int_error: "py_int s = Inl e \<Longrightarrow> e = ValueError"
  by (auto simp: py_int_def Let_def split: option.splits if_splits)

text \<open>The limit on the number of digits: the whitespace and the sign do not count.\<close>

lemma filter_dropWhile_disjoint:
  "(\<And>x. P x \<Longrightarrow> \<not> Q x) \<Longrightarrow> filter Q (dropWhile P xs) = filter Q xs"
  by (induction xs) auto

lemma int_space_not_digit: "int_space c \<Longrightarrow> \<not> isdigit c"
  by (auto simp: int_space_def isdigit_def Let_def)

lemma py_int_digit_limit:
  assumes "4300 < length (filter isdigit s)"
  shows "py_int s = Inl ValueError"
proof -
  let ?t = "rev (dropWhile int_space (rev (dropWhile int_space s)))"
  let ?body = "if ?t \<noteq> [] \<and> (hd ?t = CHR ''-'' \<or> hd ?t = CHR ''+'') then tl ?t else ?t"
  have "filter isdigit ?t = rev (filter isdigit (dropWhile int_space (rev (dropWhile int_space s))))"
    by (simp only: rev_filter)
  also have "\<dots> = rev (filter isdigit (rev (dropWhile int_space s)))"
    by (simp only: filter_dropWhile_disjoint [of int_space isdigit, OF int_space_not_digit])
  also have "\<dots> = filter isdigit (dropWhile int_space s)"
    by (simp only: rev_filter rev_rev_ident)
  also have "\<dots> = filter isdigit s"
    by (simp only: filter_dropWhile_disjoint [of int_space isdigit, OF int_space_not_digit])
  finally have t: "filter isdigit ?t = filter isdigit s" .
  have "filter isdigit ?body = filter isdigit ?t"
    by (cases ?t) (auto simp: isdigit_def)
  with t assms have "4300 < length (filter isdigit ?body)"
    by simp
  then show ?thesis
    unfolding py_int_def Let_def by (simp only: if_True)
qed

lemma py_int_separator:
  "py_int [CHR 0x1C, CHR ''5''] = Inl ValueError \<and> strip [CHR 0x1C, CHR ''5''] = ''5''"
  by code_simp

lemma cursor_target_total: "\<exists>row col. cursor_target params = Inr (row, col) \<and> 1 \<le> row \<and> 1 \<le> col"
proof -
  have "\<exists>row col. (case py_int a of
            Inl ValueError \<Rightarrow> Inr (1, 1)
          | Inl e \<Rightarrow> Inl e
          | Inr r \<Rightarrow>
             (case py_int b of
                Inl ValueError \<Rightarrow> Inr (1, 1)
              | Inl e \<Rightarrow> Inl e
              | Inr c \<Rightarrow> Inr (max r 1, max c 1))) = Inr (row, col) \<and> (1::int) \<le> row \<and> (1::int) \<le> col"
    for a b
    by (cases "py_int a"; cases "py_int b")
      (auto dest!: py_int_error split: py_error.splits)
  then show ?thesis
    by (simp add: cursor_target_def Let_def)
qed

text \<open>
  The loop that extends the document ends exactly when the row fits a C integer.
\<close>

lemma blockCount_snoc:
  "blockCount d < 2147483647 \<Longrightarrow> blockCount (d @ [ParSep]) = blockCount d + 1"
  by (simp add: blockCount_def)

lemma extend_blocks_returns:
  "row \<le> 2147483647 \<Longrightarrow> \<exists>d'. extend_blocks d row = Some d'"
proof (induction "nat (row - blockCount d)" arbitrary: d rule: less_induct)
  case less
  show ?case
  proof (cases "blockCount d < row")
    case False
    then show ?thesis
      by (simp add: extend_blocks.simps [of d])
  next
    case True
    then have b: "blockCount d < 2147483647"
      using less.prems by simp
    have "nat (row - blockCount (d @ [ParSep])) < nat (row - blockCount d)"
      using True blockCount_snoc [OF b] by simp
    from less.hyps [OF this less.prems]
    obtain d' where "extend_blocks (d @ [ParSep]) row = Some d'" ..
    then show ?thesis
      using True by (simp add: extend_blocks.simps [of d])
  qed
qed

lemma extend_blocks_bound:
  assumes "extend_blocks d row = Some d'"
  shows "row \<le> 2147483647"
proof (rule extend_blocks.raw_induct [where P = "\<lambda>d row d'. row \<le> 2147483647", OF _ assms])
  fix f :: "cell list \<Rightarrow> int \<Rightarrow> cell list option" and d row d'
  assume ih: "\<And>d row d'. f d row = Some d' \<Longrightarrow> row \<le> 2147483647"
    and step: "(if blockCount d < row then f (d @ [ParSep]) row else Some d) = Some d'"
  show "row \<le> 2147483647"
  proof (cases "blockCount d < row")
    case True
    with step have "f (d @ [ParSep]) row = Some d'"
      by simp
    then show ?thesis
      by (rule ih)
  next
    case False
    then show ?thesis
      using blockCount_bounds [of d] by simp
  qed
qed

lemma extend_blocks_never: "2147483647 < row \<Longrightarrow> extend_blocks d row = None"
  using extend_blocks_bound [of d row] by (cases "extend_blocks d row") auto

lemma cursor_position_result:
  "(\<exists>s'. cursor_position params s = Some (Inr s') \<and> wf_screen s')
     \<or> cursor_position params s = Some (Inl OverflowError)
     \<or> cursor_position params s = None"
proof -
  obtain row col where t: "cursor_target params = Inr (row, col)"
    using cursor_target_total [of params] by blast
  show ?thesis
    by (auto simp: cursor_position_def t c_int_def Let_def wf_screen_def split: option.splits)
qed

text \<open>
  The call does not return exactly when the row is above the largest C integer.
\<close>

lemma cursor_position_None:
  "cursor_position params s = None
     \<longleftrightarrow> (\<exists>row col. cursor_target params = Inr (row, col) \<and> 2147483647 < row)"
proof -
  obtain row col where t: "cursor_target params = Inr (row, col)"
    using cursor_target_total [of params] by blast
  show ?thesis
  proof (cases "2147483647 < row")
    case True
    then show ?thesis
      by (simp add: cursor_position_def t extend_blocks_never)
  next
    case False
    then obtain d' where "extend_blocks (doc s) row = Some d'"
      using extend_blocks_returns [of row "doc s"] by auto
    with False show ?thesis
      by (simp add: cursor_position_def t c_int_def)
  qed
qed

lemma cursor_target_2147483648: "cursor_target ''2147483648;1'' = Inr (2147483648, 1)"
  by (simp add: cursor_target_def py_int_def int_space_def isdigit_def)

lemma cursor_position_never_returns:
  "handle_output (ESC # ''[2147483648;1H'') s = None"
proof -
  have "cursor_position ''2147483648;1'' s = None"
    by (simp add: cursor_position_def cursor_target_2147483648 extend_blocks_never)
  then show ?thesis
    by (simp add: handle_output_def ctrl_defs isalpha_def csi_dispatch_def)
qed

lemma csi_dispatch_result:
  assumes "wf_screen s"
  shows "(\<exists>s'. csi_dispatch command params s = Some (Inr s') \<and> wf_screen s')
           \<or> csi_dispatch command params s = Some (Inl OverflowError)
           \<or> csi_dispatch command params s = None"
  using assms cursor_position_result [of params s]
  by (auto simp: csi_dispatch_def wf_erase_line wf_erase_display)


text \<open>
  On a well-formed screen the loop returns a well-formed screen, raises
  \<open>OverflowError\<close>, or does not return; no \<open>ValueError\<close> leaves it.
\<close>

lemma handle_loop_result:
  "wf_screen cur \<Longrightarrow>
     (\<exists>s'. handle_loop str cur = Some (Inr s') \<and> wf_screen s')
       \<or> handle_loop str cur = Some (Inl OverflowError)
       \<or> handle_loop str cur = None"
proof (induction "length str" arbitrary: str cur rule: less_induct)
  case less
  show ?case
  proof (cases str)
    case Nil
    with less.prems show ?thesis by simp
  next
    case (Cons char rest)
    note ih = less.hyps [unfolded Cons]
    let ?del = "if pos cur > 0 then deletePreviousChar cur else cur"
    have wd: "wf_screen ?del"
      using less.prems by (simp add: wf_deletePreviousChar)
    consider (bs) "char = BS \<or> char = DEL" | (esc) "char = ESC"
      | (other) "char \<noteq> BS" "char \<noteq> DEL" "char \<noteq> ESC"
      by blast
    then show ?thesis
    proof cases
      case bs
      show ?thesis
      proof (cases "2 \<le> length rest \<and> rest ! 0 = CHR '' '' \<and> (rest ! 1 = BS \<or> rest ! 1 = DEL)")
        case True
        show ?thesis
          unfolding Cons handle_loop_erase_unit [OF bs True]
          by (rule ih [OF _ wd]) simp
      next
        case False
        show ?thesis
          unfolding Cons handle_loop_backspace [OF bs False]
          by (rule ih [OF _ wd]) simp
      qed
    next
      case esc
      show ?thesis
      proof (cases rest)
        case Nil
        with less.prems show ?thesis
          unfolding Cons esc by (simp add: ESC_distinct)
      next
        case (Cons next_char rest1)
        note r = Cons
        show ?thesis
        proof (cases "next_char = CHR ''[''")
          case True
          show ?thesis
          proof (cases "dropWhile (\<lambda>c. \<not> isalpha c) rest1")
            case Nil
            show ?thesis
              unfolding \<open>str = char # rest\<close> esc r True handle_loop_csi_cut [OF Nil]
              using less.prems by blast
          next
            case (Cons command rest2)
            have l: "length rest2 < length (ESC # CHR ''['' # rest1)"
              using dropWhile_Cons_length [OF Cons] by simp
            from csi_dispatch_result [OF less.prems, of command "takeWhile (\<lambda>c. \<not> isalpha c) rest1"]
            show ?thesis
            proof (elim disjE)
              assume "\<exists>s'. csi_dispatch command (takeWhile (\<lambda>c. \<not> isalpha c) rest1) cur = Some (Inr s')
                        \<and> wf_screen s'"
              then obtain s' where
                d: "csi_dispatch command (takeWhile (\<lambda>c. \<not> isalpha c) rest1) cur = Some (Inr s')"
                and w: "wf_screen s'"
                by blast
              show ?thesis
                unfolding \<open>str = char # rest\<close> esc r True handle_loop_csi [OF Cons] d option.case sum.case
                by (rule less.hyps [OF _ w]) (use l \<open>str = char # rest\<close> esc r True in simp)
            next
              assume d: "csi_dispatch command (takeWhile (\<lambda>c. \<not> isalpha c) rest1) cur
                           = Some (Inl OverflowError)"
              show ?thesis
                unfolding \<open>str = char # rest\<close> esc r True handle_loop_csi [OF Cons] d
                by simp
            next
              assume d: "csi_dispatch command (takeWhile (\<lambda>c. \<not> isalpha c) rest1) cur = None"
              show ?thesis
                unfolding \<open>str = char # rest\<close> esc r True handle_loop_csi [OF Cons] d
                by simp
            qed
          qed
        next
          case False
          note nb = False
          show ?thesis
          proof (cases "next_char = CHR '']''")
            case True
            show ?thesis
              unfolding \<open>str = char # rest\<close> esc r True handle_loop_osc
              by (rule less.hyps [OF _ less.prems])
                (use skip_osc_length [of rest1] \<open>str = char # rest\<close> r in simp)
          next
            case False
            show ?thesis
              unfolding \<open>str = char # rest\<close> esc r handle_loop_esc_other [OF nb False]
              by (rule less.hyps [OF _ less.prems]) (use \<open>str = char # rest\<close> r in simp)
          qed
        qed
      qed
    next
      case other
      have w: "wf_screen (if char = CR then cursor_to_line_start cur
                else if char = LF then insertBlock (cursor_to_line_end cur)
                else if char = BEL then cur
                else write_char char cur)"
        using less.prems
        by (simp add: wf_cursor_to_line_start wf_cursor_to_line_end wf_insertBlock wf_write_char)
      show ?thesis
        unfolding Cons handle_loop_plain [OF other]
        by (rule ih [OF _ w]) simp
    qed
  qed
qed

text \<open>
  Sequences that the interpreter does not know leave the screen as it is: an escape
  followed by any character other than the two brackets, a control sequence whose final
  letter is none of \<open>K\<close>, \<open>J\<close>, \<open>H\<close>, \<open>f\<close>, an operating system command, and a sequence cut
  by the end of the fragment.
\<close>

lemma unknown_sequences_no_op:
  "handle_output [ESC] s = Some (Inr s)"
  "next_char \<noteq> CHR ''['' \<Longrightarrow> next_char \<noteq> CHR '']'' \<Longrightarrow>
     handle_output (ESC # next_char # rest) s = handle_output rest s"
  "list_all (\<lambda>c. \<not> isalpha c) params \<Longrightarrow> isalpha command \<Longrightarrow>
     command \<notin> {CHR ''K'', CHR ''J'', CHR ''H'', CHR ''f''} \<Longrightarrow>
     handle_output (ESC # CHR ''['' # params @ command # rest) s = handle_output rest s"
  "list_all (\<lambda>c. \<not> isalpha c) params \<Longrightarrow> handle_output (ESC # CHR ''['' # params) s = Some (Inr s)"
  "handle_output (ESC # CHR '']'' # payload) s = handle_output (skip_osc payload) s"
proof -
  show "handle_output [ESC] s = Some (Inr s)"
    by (simp add: handle_output_def ESC_distinct)
  show "next_char \<noteq> CHR ''['' \<Longrightarrow> next_char \<noteq> CHR '']'' \<Longrightarrow>
          handle_output (ESC # next_char # rest) s = handle_output rest s"
    unfolding handle_output_def by (rule handle_loop_esc_other)
  show "handle_output (ESC # CHR '']'' # payload) s = handle_output (skip_osc payload) s"
    by (simp only: handle_output_def handle_loop_osc)
  show "handle_output (ESC # CHR ''['' # params) s = Some (Inr s)"
    if "list_all (\<lambda>c. \<not> isalpha c) params"
  proof -
    have "dropWhile (\<lambda>c. \<not> isalpha c) params = []"
      using that by (simp add: list_all_iff)
    then show ?thesis
      by (simp only: handle_output_def handle_loop_csi_cut)
  qed
  show "handle_output (ESC # CHR ''['' # params @ command # rest) s = handle_output rest s"
    if p: "list_all (\<lambda>c. \<not> isalpha c) params" and a: "isalpha command"
      and k: "command \<notin> {CHR ''K'', CHR ''J'', CHR ''H'', CHR ''f''}"
  proof -
    have q: "\<And>x. x \<in> set params \<Longrightarrow> \<not> isalpha x"
      using p by (simp add: list_all_iff)
    have d: "dropWhile (\<lambda>c. \<not> isalpha c) (params @ command # rest) = command # rest"
      using dropWhile_append2 [of params "\<lambda>c. \<not> isalpha c" "command # rest"] q a by simp
    have t: "takeWhile (\<lambda>c. \<not> isalpha c) (params @ command # rest) = params"
      using takeWhile_append2 [of params "\<lambda>c. \<not> isalpha c" "command # rest"] q a by simp
    have c: "csi_dispatch command params s = Some (Inr s)"
      using k by (simp add: csi_dispatch_def)
    show ?thesis
      unfolding handle_output_def handle_loop_csi [OF d] t c by simp
  qed
qed

end
